theory Spec2Isabelle
  imports Main "HOL-Library.Sublist" "HOL-Library.AList"
begin

section \<open>The icon importer \<^verbatim>\<open>ios/FriendMap/import_icons.py\<close>\<close>

text \<open>
  The script copies every \<^verbatim>\<open>.png\<close> entry of a fixed source directory into an Xcode
  asset catalogue: one directory \<^verbatim>\<open><base>.imageset\<close> per entry, holding the copied
  picture and a descriptor \<^verbatim>\<open>Contents.json\<close>.

  The embedding follows the script statement by statement. What the script takes from
  Python's library (\<^verbatim>\<open>str.endswith\<close>, \<^verbatim>\<open>os.path.splitext\<close>, \<^verbatim>\<open>os.makedirs\<close>,
  \<^verbatim>\<open>os.listdir\<close>, \<^verbatim>\<open>shutil.copy\<close>, \<^verbatim>\<open>open\<close>, \<^verbatim>\<open>json.dump\<close>, \<^verbatim>\<open>print\<close>) is
  modelled after CPython's sources on a POSIX system, the paths of the script being
  macOS paths.

  A Python \<^verbatim>\<open>str\<close> is a \<^typ>\<open>string\<close> whose characters stand for the code points
  0 to 255; file contents are byte strings of the same type.
\<close>

subsection \<open>Strings\<close>

text \<open>\<^verbatim>\<open>s.endswith(suffix)\<close>\<close>

definition endswith :: "string \<Rightarrow> string \<Rightarrow> bool" where
  "endswith s suf \<longleftrightarrow>
     length suf \<le> length s \<and> drop (length s - length suf) s = suf"

text \<open>
  \<^verbatim>\<open>os.path.splitext(p)\<close> is \<^verbatim>\<open>genericpath._splitext(p, '/', None, '.')\<close>: the
  extension starts at the last dot after the last slash, unless only dots stand
  between that slash and that dot; then there is no extension.
\<close>

definition splitext :: "string \<Rightarrow> string \<times> string" where
  "splitext p =
     (let name = rev (takeWhile (\<lambda>c. c \<noteq> CHR ''/'') (rev p));
          head = rev (dropWhile (\<lambda>c. c \<noteq> CHR ''/'') (rev p));
          ext = rev (takeWhile (\<lambda>c. c \<noteq> CHR ''.'') (rev name));
          stem = rev (drop 1 (dropWhile (\<lambda>c. c \<noteq> CHR ''.'') (rev name)))
      in if CHR ''.'' \<in> set name \<and> (\<exists>c \<in> set stem. c \<noteq> CHR ''.'')
         then (head @ stem, CHR ''.'' # ext)
         else (p, []))"

text \<open>\<^verbatim>\<open>str(n)\<close> for an integer: decimal digits, a minus sign when negative.\<close>

definition digit_char :: "nat \<Rightarrow> char" where
  "digit_char d = ''0123456789abcdef'' ! (d mod 16)"

fun str_nat :: "nat \<Rightarrow> string" where
  "str_nat n = (if n < 10 then [digit_char n] else str_nat (n div 10) @ [digit_char (n mod 10)])"

declare str_nat.simps [simp del]

definition str_int :: "int \<Rightarrow> string" where
  "str_int i = (if i < 0 then CHR ''-'' # str_nat (nat (- i)) else str_nat (nat i))"

subsection \<open>JSON documents and \<^verbatim>\<open>json.dump(obj, fp, indent=2)\<close>\<close>

text \<open>
  The values the script builds: strings, integers, lists and dictionaries with string
  keys. A dictionary keeps the order in which its keys were written, which is the order
  \<^verbatim>\<open>json\<close> emits them in (no \<^verbatim>\<open>sort_keys\<close>).
\<close>

datatype json = JStr string | JInt int | JList "json list" | JDict "(string \<times> json) list"

text \<open>
  \<^verbatim>\<open>json.encoder.py_encode_basestring_ascii\<close> (\<^verbatim>\<open>ensure_ascii\<close> is left at its
  default): a character from space to tilde other than the quote and the backslash
  stands for itself; the others are escaped.
\<close>

definition hex4 :: "nat \<Rightarrow> string" where
  "hex4 n = [digit_char (n div 4096), digit_char (n div 256), digit_char (n div 16), digit_char n]"

definition escape_char :: "char \<Rightarrow> string" where
  "escape_char c =
     (if c = CHR 0x5C then [CHR 0x5C, CHR 0x5C]
      else if c = CHR 0x22 then [CHR 0x5C, CHR 0x22]
      else if c = CHR 0x08 then [CHR 0x5C, CHR ''b'']
      else if c = CHR 0x0C then [CHR 0x5C, CHR ''f'']
      else if c = CHR 0x0A then [CHR 0x5C, CHR ''n'']
      else if c = CHR 0x0D then [CHR 0x5C, CHR ''r'']
      else if c = CHR 0x09 then [CHR 0x5C, CHR ''t'']
      else if 0x20 \<le> (of_char c :: nat) \<and> (of_char c :: nat) \<le> 0x7E then [c]
      else [CHR 0x5C, CHR ''u''] @ hex4 (of_char c))"

definition encode_basestring_ascii :: "string \<Rightarrow> string" where
  "encode_basestring_ascii s = [CHR 0x22] @ concat (map escape_char s) @ [CHR 0x22]"

text \<open>
  The encoder with an indent: \<^verbatim>\<open>newline_indent n\<close> is a line feed and \<open>n\<close> levels of
  indentation, the items of a non-empty container are separated by a comma and such a
  line break, a key and its value by a colon and a space. Empty containers are
  \<^verbatim>\<open>[]\<close> and \<^verbatim>\<open>{}\<close>.
\<close>

definition newline_indent :: "nat \<Rightarrow> nat \<Rightarrow> string" where
  "newline_indent indent level = CHR 0x0A # replicate (indent * level) CHR '' ''"

fun join_items :: "string \<Rightarrow> string list \<Rightarrow> string" where
  "join_items sep [] = []"
| "join_items sep [x] = x"
| "join_items sep (x # y # ys) = x @ sep @ join_items sep (y # ys)"

fun iterencode :: "nat \<Rightarrow> nat \<Rightarrow> json \<Rightarrow> string"
  and iterencode_list :: "nat \<Rightarrow> nat \<Rightarrow> json list \<Rightarrow> string list"
  and iterencode_dict :: "nat \<Rightarrow> nat \<Rightarrow> (string \<times> json) list \<Rightarrow> string list" where
  "iterencode indent level (JStr s) = encode_basestring_ascii s"
| "iterencode indent level (JInt i) = str_int i"
| "iterencode indent level (JList xs) =
     (if xs = [] then ''[]''
      else ''['' @ newline_indent indent (level + 1)
           @ join_items ('','' @ newline_indent indent (level + 1))
               (iterencode_list indent (level + 1) xs)
           @ newline_indent indent level @ '']'')"
| "iterencode indent level (JDict kvs) =
     (if kvs = [] then ''{}''
      else ''{'' @ newline_indent indent (level + 1)
           @ join_items ('','' @ newline_indent indent (level + 1))
               (iterencode_dict indent (level + 1) kvs)
           @ newline_indent indent level @ ''}'')"
| "iterencode_list indent level [] = []"
| "iterencode_list indent level (x # xs) =
     iterencode indent level x # iterencode_list indent level xs"
| "iterencode_dict indent level [] = []"
| "iterencode_dict indent level ((k, v) # kvs) =
     (encode_basestring_ascii k @ '': '' @ iterencode indent level v)
       # iterencode_dict indent level kvs"

definition json_dumps :: "nat \<Rightarrow> json \<Rightarrow> string" where
  "json_dumps indent obj = iterencode indent 0 obj"

subsection \<open>The descriptor\<close>

text \<open>\<^verbatim>\<open>get_1x_contents_json(filename)\<close>\<close>

definition get_1x_contents_json :: "string \<Rightarrow> json" where
  "get_1x_contents_json filename =
     JDict [
       (''images'', JList [
          JDict [
            (''filename'', JStr filename),
            (''idiom'', JStr ''universal''),
            (''scale'', JStr ''1x'')
          ]
        ]),
       (''info'', JDict [
          (''author'', JStr ''xcode''),
          (''version'', JInt 1)
        ])
     ]"

subsection \<open>The file system\<close>

text \<open>
  An absolute path is the list of its components, the root being the empty list, and the
  file system is an association list from paths to nodes; its order stands for the
  order in which the operating system lists entries. A component is a name as a directory
  holds it: it has no slash in it, so joining a directory and a name adds one component.
  Only the shape of the tree and the bytes of the files are modelled: there are no links,
  permissions or quotas, so the errors are those that follow from the shape of the tree.
  They are raised when a path is opened or made, before anything is changed.

  A run is the world it acts on: the file system, the trace of the changes made so far,
  and the lines printed.
\<close>

type_synonym path = "string list"

datatype node = File string | Dir

datatype error =
    FileNotFoundError path
  | NotADirectoryError path
  | IsADirectoryError path
  | FileExistsError path
  | SameFileError path

datatype event = Mkdir path | Copy path path | Write path string

record world =
  fs :: "(path \<times> node) list"
  trace :: "event list"
  stdout :: "string list"

type_synonym 'a result = "(error + 'a) \<times> world"

definition lookup :: "(path \<times> node) list \<Rightarrow> path \<Rightarrow> node option" where
  "lookup t p = (if p = [] then Some Dir else map_of t p)"

text \<open>\<^verbatim>\<open>os.path.exists\<close>, \<^verbatim>\<open>os.path.isdir\<close>, \<^verbatim>\<open>os.path.join\<close> with one more component,
  \<^verbatim>\<open>os.path.basename\<close>\<close>

definition path_exists :: "(path \<times> node) list \<Rightarrow> path \<Rightarrow> bool" where
  "path_exists t p \<longleftrightarrow> lookup t p \<noteq> None"

definition isdir :: "(path \<times> node) list \<Rightarrow> path \<Rightarrow> bool" where
  "isdir t p \<longleftrightarrow> lookup t p = Some Dir"

definition os_path_join :: "path \<Rightarrow> string \<Rightarrow> path" where
  "os_path_join d name = d @ [name]"

definition basename :: "path \<Rightarrow> string" where
  "basename p = (if p = [] then [] else last p)"

text \<open>An exception leaves the world as it is at that moment; the next statement does
  not run.\<close>

definition and_then :: "(world \<Rightarrow> 'a result) \<Rightarrow> ('a \<Rightarrow> world \<Rightarrow> 'b result) \<Rightarrow> world \<Rightarrow> 'b result" where
  "and_then m k w = (case m w of (Inl e, w') \<Rightarrow> (Inl e, w') | (Inr x, w') \<Rightarrow> k x w')"

text \<open>The system call \<^verbatim>\<open>mkdir\<close>: the parent is resolved first.\<close>

definition mkdir :: "path \<Rightarrow> world \<Rightarrow> unit result" where
  "mkdir p w =
     (case lookup (fs w) (butlast p) of
        None \<Rightarrow> (Inl (FileNotFoundError p), w)
      | Some (File _) \<Rightarrow> (Inl (NotADirectoryError p), w)
      | Some Dir \<Rightarrow>
          if path_exists (fs w) p then (Inl (FileExistsError p), w)
          else (Inr (), w\<lparr>fs := AList.update p Dir (fs w), trace := trace w @ [Mkdir p]\<rparr>))"

text \<open>
  \<^verbatim>\<open>os.makedirs(name, exist_ok=True)\<close>: when the parent is missing it is made first,
  a \<^verbatim>\<open>FileExistsError\<close> of that call being swallowed; then \<^verbatim>\<open>mkdir(name)\<close>, whose
  error is swallowed when \<^verbatim>\<open>name\<close> is a directory.
\<close>

function makedirs :: "path \<Rightarrow> world \<Rightarrow> unit result" where
  "makedirs name w =
     (case (if name \<noteq> [] \<and> \<not> path_exists (fs w) (butlast name)
            then (case makedirs (butlast name) w of
                    (Inl (FileExistsError q), w') \<Rightarrow> (Inr (), w')
                  | r \<Rightarrow> r)
            else (Inr (), w)) of
        (Inl e, w') \<Rightarrow> (Inl e, w')
      | (Inr u, w') \<Rightarrow>
          (case mkdir name w' of
             (Inl e, w'') \<Rightarrow> if isdir (fs w'') name then (Inr (), w'') else (Inl e, w'')
           | r \<Rightarrow> r))"
  by pat_completeness auto
termination
  by (relation "measure (\<lambda>(name, w). length name)") auto

declare makedirs.simps [simp del]

text \<open>\<^verbatim>\<open>os.listdir(p)\<close>: the names of the entries of \<^verbatim>\<open>p\<close>.\<close>

definition entries :: "(path \<times> node) list \<Rightarrow> path \<Rightarrow> string list" where
  "entries t p = map (\<lambda>(q, n). last q) (filter (\<lambda>(q, n). q \<noteq> [] \<and> butlast q = p) t)"

definition listdir :: "path \<Rightarrow> world \<Rightarrow> string list result" where
  "listdir p w =
     (case lookup (fs w) p of
        None \<Rightarrow> (Inl (FileNotFoundError p), w)
      | Some (File _) \<Rightarrow> (Inl (NotADirectoryError p), w)
      | Some Dir \<Rightarrow> (Inr (entries (fs w) p), w))"

text \<open>\<^verbatim>\<open>open(p, 'rb').read()\<close>\<close>

definition read_file :: "path \<Rightarrow> world \<Rightarrow> string result" where
  "read_file p w =
     (case lookup (fs w) (butlast p) of
        None \<Rightarrow> (Inl (FileNotFoundError p), w)
      | Some (File _) \<Rightarrow> (Inl (NotADirectoryError p), w)
      | Some Dir \<Rightarrow>
          (case lookup (fs w) p of
             None \<Rightarrow> (Inl (FileNotFoundError p), w)
           | Some Dir \<Rightarrow> (Inl (IsADirectoryError p), w)
           | Some (File b) \<Rightarrow> (Inr b, w)))"

text \<open>Opening \<^verbatim>\<open>p\<close> for writing, writing \<^verbatim>\<open>b\<close> and closing; \<open>ev\<close> is the entry of
  the trace.\<close>

definition store :: "path \<Rightarrow> string \<Rightarrow> event \<Rightarrow> world \<Rightarrow> unit result" where
  "store p b ev w =
     (case lookup (fs w) (butlast p) of
        None \<Rightarrow> (Inl (FileNotFoundError p), w)
      | Some (File _) \<Rightarrow> (Inl (NotADirectoryError p), w)
      | Some Dir \<Rightarrow>
          if isdir (fs w) p then (Inl (IsADirectoryError p), w)
          else (Inr (), w\<lparr>fs := AList.update p (File b) (fs w), trace := trace w @ [ev]\<rparr>))"

text \<open>
  \<^verbatim>\<open>shutil.copy(src, dst)\<close>: a destination that is a directory stands for the entry
  of the source's name in it; \<^verbatim>\<open>copyfile\<close> refuses to copy a file onto itself, opens
  the source, then the destination.
\<close>

definition shutil_copy :: "path \<Rightarrow> path \<Rightarrow> world \<Rightarrow> unit result" where
  "shutil_copy src dst w =
     (let dst' = (if isdir (fs w) dst then os_path_join dst (basename src) else dst)
      in if src = dst' \<and> path_exists (fs w) src then (Inl (SameFileError src), w)
         else and_then (read_file src) (\<lambda>b. store dst' b (Copy src dst')) w)"

text \<open>\<^verbatim>\<open>with open(p, "w") as fp: json.dump(obj, fp, indent=2)\<close>: the text is ASCII, so
  its bytes are its characters.\<close>

definition json_dump_to :: "path \<Rightarrow> json \<Rightarrow> world \<Rightarrow> unit result" where
  "json_dump_to p obj w = store p (json_dumps 2 obj) (Write p (json_dumps 2 obj)) w"

definition print :: "string \<Rightarrow> world \<Rightarrow> unit result" where
  "print line w = (Inr (), w\<lparr>stdout := stdout w @ [line]\<rparr>)"

subsection \<open>The script\<close>

text \<open>
  The two directories are the script's two strings, component by component. Of the four
  builders of descriptors the script defines it calls \<^verbatim>\<open>get_1x_contents_json\<close> only; the
  other three are not modelled.
\<close>

definition source_dir :: path where
  "source_dir = [''Users'', ''alexdamore'', ''Desktop'', ''Vibe_Code'', ''Antigravity'',
     ''Antigravity - Dec 11 2025 - Testing'', ''friendmap'', ''ios'', ''FriendMap'',
     ''new icons'', ''realistic'']"

definition dest_root :: path where
  "dest_root = [''Users'', ''alexdamore'', ''Desktop'', ''Vibe_Code'', ''Antigravity'',
     ''Antigravity - Dec 11 2025 - Testing'', ''friendmap'', ''ios'', ''FriendMap'',
     ''Assets.xcassets'', ''ActivityIcons'']"

text \<open>The body of the loop \<^verbatim>\<open>for f in files\<close>; \<^verbatim>\<open>continue\<close> ends it with nothing
  done.\<close>

definition imageset_dir :: "string \<Rightarrow> path" where
  "imageset_dir f = os_path_join dest_root (fst (splitext f) @ ''.imageset'')"

definition import_icon :: "string \<Rightarrow> world \<Rightarrow> unit result" where
  "import_icon f w =
     (let name_no_ext = fst (splitext f)
      in if name_no_ext = ''gaming'' then (Inr (), w)
         else
           and_then (makedirs (imageset_dir f)) (\<lambda>_.
           and_then (shutil_copy (os_path_join source_dir f) (os_path_join (imageset_dir f) f)) (\<lambda>_.
           json_dump_to (os_path_join (imageset_dir f) ''Contents.json'')
             (get_1x_contents_json f))) w)"

fun for_files :: "string list \<Rightarrow> world \<Rightarrow> unit result" where
  "for_files [] w = (Inr (), w)"
| "for_files (f # files) w = and_then (import_icon f) (\<lambda>_. for_files files) w"

text \<open>The statements of the script, in their order.\<close>

definition main :: "world \<Rightarrow> unit result" where
  "main =
     and_then (makedirs dest_root) (\<lambda>_.
     and_then (listdir source_dir) (\<lambda>names.
       let files = filter (\<lambda>f. endswith f ''.png'') names
       in and_then (for_files files) (\<lambda>_.
          print (''Processed '' @ str_int (int (length files)) @ '' icons.''))))"

text \<open>A run of the script on a file system: nothing traced, nothing printed yet.\<close>

definition initial :: "(path \<times> node) list \<Rightarrow> world" where
  "initial t = \<lparr>fs = t, trace = [], stdout = []\<rparr>"

definition run :: "(path \<times> node) list \<Rightarrow> unit result" where
  "run t = main (initial t)"

section \<open>Notions for the statements and proofs\<close>

subsection \<open>The descriptor of the specification\<close>


text \<open>The bytes of that document with an indent of two spaces, line by line; \<open>CHR 0x22\<close>
  is the double quote and \<open>CHR 0x0A\<close> the line feed.\<close>

definition descriptor_layout :: "string \<Rightarrow> string" where
  "descriptor_layout f =
     ''{'' @ [CHR 0x0A] @
     ''  '' @ [CHR 0x22] @ ''images'' @ [CHR 0x22] @ '': ['' @ [CHR 0x0A] @
     ''    {'' @ [CHR 0x0A] @
     ''      '' @ [CHR 0x22] @ ''filename'' @ [CHR 0x22] @ '': '' @ encode_basestring_ascii f @ '','' @ [CHR 0x0A] @
     ''      '' @ [CHR 0x22] @ ''idiom'' @ [CHR 0x22] @ '': '' @ [CHR 0x22] @ ''universal'' @ [CHR 0x22] @ '','' @ [CHR 0x0A] @
     ''      '' @ [CHR 0x22] @ ''scale'' @ [CHR 0x22] @ '': '' @ [CHR 0x22] @ ''1x'' @ [CHR 0x22] @ [CHR 0x0A] @
     ''    }'' @ [CHR 0x0A] @
     ''  ],'' @ [CHR 0x0A] @
     ''  '' @ [CHR 0x22] @ ''info'' @ [CHR 0x22] @ '': {'' @ [CHR 0x0A] @
     ''    '' @ [CHR 0x22] @ ''author'' @ [CHR 0x22] @ '': '' @ [CHR 0x22] @ ''xcode'' @ [CHR 0x22] @ '','' @ [CHR 0x0A] @
     ''    '' @ [CHR 0x22] @ ''version'' @ [CHR 0x22] @ '': 1'' @ [CHR 0x0A] @
     ''  }'' @ [CHR 0x0A] @
     ''}''"

definition is_ascii :: "string \<Rightarrow> bool" where
  "is_ascii s \<longleftrightarrow> list_all (\<lambda>c. (of_char c :: nat) < 128) s"

definition descriptor_text :: "string \<Rightarrow> string" where
  "descriptor_text f = json_dumps 2 (get_1x_contents_json f)"

subsection \<open>The paths and the candidates of a run\<close>

text \<open>
  The path a candidate is read from, the path its descriptor is written to, and the path
  \<^verbatim>\<open>shutil.copy\<close> stores it at: inside \<^verbatim>\<open><container>/f\<close> when that is a directory.
\<close>

definition source_path :: "string \<Rightarrow> path" where
  "source_path f = os_path_join source_dir f"

definition descriptor_path :: "string \<Rightarrow> path" where
  "descriptor_path f = os_path_join (imageset_dir f) ''Contents.json''"

definition copy_target :: "(path \<times> node) list \<Rightarrow> string \<Rightarrow> path" where
  "copy_target t f =
     (if isdir t (os_path_join (imageset_dir f) f)
      then os_path_join (os_path_join (imageset_dir f) f) f
      else os_path_join (imageset_dir f) f)"

text \<open>The list \<^verbatim>\<open>files\<close> of the script, the line it prints, the candidates the loop
  does not skip, and those of them that share the container of \<open>f\<close>.\<close>

definition candidates :: "(path \<times> node) list \<Rightarrow> string list" where
  "candidates t = filter (\<lambda>f. endswith f ''.png'') (entries t source_dir)"

definition summary :: "string list \<Rightarrow> string" where
  "summary files = ''Processed '' @ str_int (int (length files)) @ '' icons.''"

definition nongaming :: "string \<Rightarrow> bool" where
  "nongaming f \<longleftrightarrow> fst (splitext f) \<noteq> ''gaming''"

definition container_mates :: "string list \<Rightarrow> string \<Rightarrow> string list" where
  "container_mates files f = filter (\<lambda>g. nongaming g \<and> imageset_dir g = imageset_dir f) files"

subsection \<open>Reading the trace\<close>

definition is_mkdir :: "event \<Rightarrow> bool" where
  "is_mkdir e = (case e of Mkdir p \<Rightarrow> True | _ \<Rightarrow> False)"

definition is_copy :: "event \<Rightarrow> bool" where
  "is_copy e = (case e of Copy s d \<Rightarrow> True | _ \<Rightarrow> False)"

text \<open>The copies made and the files written at or below a directory \<open>c\<close>.\<close>

definition copies_into :: "path \<Rightarrow> event list \<Rightarrow> event list" where
  "copies_into c evs = filter (\<lambda>e. case e of Copy s d \<Rightarrow> prefix c d | _ \<Rightarrow> False) evs"

definition writes_into :: "path \<Rightarrow> event list \<Rightarrow> event list" where
  "writes_into c evs = filter (\<lambda>e. case e of Write p b \<Rightarrow> prefix c p | _ \<Rightarrow> False) evs"

text \<open>What the loop body traces for a candidate once its container exists.\<close>

definition payload :: "(path \<times> node) list \<Rightarrow> string \<Rightarrow> event list" where
  "payload t f = [Copy (source_path f) (copy_target t f),
                  Write (descriptor_path f) (descriptor_text f)]"

subsection \<open>What an operation may change\<close>

text \<open>
  \<open>upd_by U t t'\<close>: the file system \<open>t'\<close> comes from \<open>t\<close> by updates taken from \<open>U\<close>, each
  of which makes a directory where nothing was or stores a file where no directory is.
  \<open>changes U E w w'\<close> adds that the trace grew by events of \<open>E\<close> and nothing was printed.
\<close>

inductive upd_by :: "(path \<times> node) set \<Rightarrow> (path \<times> node) list \<Rightarrow> (path \<times> node) list \<Rightarrow> bool"
  for U where
    same: "upd_by U t t"
  | step: "upd_by U t t' \<Longrightarrow> (q, n) \<in> U \<Longrightarrow> q \<noteq> [] \<Longrightarrow>
           (n = Dir \<longrightarrow> lookup t' q = None) \<Longrightarrow> (n \<noteq> Dir \<longrightarrow> lookup t' q \<noteq> Some Dir) \<Longrightarrow>
           upd_by U t (AList.update q n t')"

definition changes :: "(path \<times> node) set \<Rightarrow> event set \<Rightarrow> world \<Rightarrow> world \<Rightarrow> bool" where
  "changes U E w w' \<longleftrightarrow>
     upd_by U (fs w) (fs w') \<and> (\<exists>evs. trace w' = trace w @ evs \<and> set evs \<subseteq> E)
     \<and> stdout w' = stdout w"

text \<open>The updates and events of the loop body for \<open>f\<close>, and the updates of a body that
  ends with an error: it has not written the descriptor.\<close>

definition touched :: "string \<Rightarrow> (path \<times> node) set" where
  "touched f =
     (if fst (splitext f) = ''gaming'' then {}
      else {(q, Dir) | q. prefix q (imageset_dir f)}
         \<union> {(q, File b) | q b. q = imageset_dir f @ [f] \<or> q = imageset_dir f @ [f, f]}
         \<union> {(descriptor_path f, File (json_dumps 2 (get_1x_contents_json f)))})"

definition emitted :: "string \<Rightarrow> event set" where
  "emitted f =
     (if fst (splitext f) = ''gaming'' then {}
      else {Mkdir q | q. prefix q (imageset_dir f)}
         \<union> {Copy (source_path f) q | q. q = imageset_dir f @ [f] \<or> q = imageset_dir f @ [f, f]}
         \<union> {Write (descriptor_path f) (json_dumps 2 (get_1x_contents_json f))})"


text \<open>One level of \<open>makedirs\<close>: \<open>w1\<close> is the world in which \<open>mkdir name\<close> runs.\<close>

definition parent_made :: "path \<Rightarrow> world \<Rightarrow> world \<Rightarrow> bool" where
  "parent_made name w w1 \<longleftrightarrow>
     (if name \<noteq> [] \<and> \<not> path_exists (fs w) (butlast name)
      then makedirs (butlast name) w = (Inr (), w1)
           \<or> (\<exists>q. makedirs (butlast name) w = (Inl (FileExistsError q), w1))
      else w1 = w)"


subsection \<open>Example file systems\<close>

text \<open>
  \<open>source_tree xs\<close> holds the directories from the root down to the source directory and
  the entries \<open>xs\<close> in it. The examples: the three icons of the specification's example;
  two names with one base name; a directory among the candidates; a directory with the
  excluded name. \<open>imported f b\<close> is what a run adds for a file \<open>f\<close> with bytes \<open>b\<close>.
\<close>

definition dirs_to :: "path \<Rightarrow> (path \<times> node) list" where
  "dirs_to p = map (\<lambda>n. (take (Suc n) p, Dir)) [0..<length p]"

definition source_tree :: "(string \<times> node) list \<Rightarrow> (path \<times> node) list" where
  "source_tree xs = dirs_to source_dir @ map (\<lambda>(name, n). (os_path_join source_dir name, n)) xs"

definition example_icons :: "(path \<times> node) list" where
  "example_icons = source_tree
     [(''sports.png'', File ''S''), (''music.png'', File ''M''), (''gaming.png'', File ''G'')]"

definition dotted_icons :: "(path \<times> node) list" where
  "dotted_icons = source_tree [(''.png'', File ''A''), (''.png.png'', File ''B'')]"

definition broken_icons :: "(path \<times> node) list" where
  "broken_icons = source_tree [(''a.png'', File ''A''), (''d.png'', Dir), (''z.png'', File ''Z'')]"

definition gaming_folder :: "(path \<times> node) list" where
  "gaming_folder = source_tree [(''gaming.png'', Dir)]"

definition imported :: "string \<Rightarrow> string \<Rightarrow> (path \<times> node) list" where
  "imported f b = [(imageset_dir f, Dir), (imageset_dir f @ [f], File b),
                   (descriptor_path f, File (descriptor_text f))]"

section \<open>Lemmas\<close>

subsection \<open>The descriptor text\<close>

lemma is_ascii_append [simp]: "is_ascii (xs @ ys) \<longleftrightarrow> is_ascii xs \<and> is_ascii ys"
  by (simp add: is_ascii_def)

lemma is_ascii_Cons [simp]: "is_ascii (c # xs) \<longleftrightarrow> (of_char c :: nat) < 128 \<and> is_ascii xs"
  by (simp add: is_ascii_def)

lemma is_ascii_Nil [simp]: "is_ascii []"
  by (simp add: is_ascii_def)




lemma str_nat_1: "str_nat (Suc 0) = ''1''"
  by (subst str_nat.simps) (simp add: digit_char_def)

lemma descriptor_bytes: "json_dumps 2 (get_1x_contents_json f) = descriptor_layout f"
  by (simp add: json_dumps_def get_1x_contents_json_def newline_indent_def str_int_def str_nat_1
      numeral_eq_Suc descriptor_layout_def encode_basestring_ascii_def escape_char_def)


subsection \<open>Names ending in \<^verbatim>\<open>.png\<close> and their base names\<close>

lemma endswith_iff: "endswith f suf \<longleftrightarrow> (\<exists>s. f = s @ suf)"
proof
  assume "endswith f suf"
  then have "f = take (length f - length suf) f @ suf"
    unfolding endswith_def by (metis append_take_drop_id)
  then show "\<exists>s. f = s @ suf" ..
next
  assume "\<exists>s. f = s @ suf"
  then show "endswith f suf" by (auto simp: endswith_def)
qed

lemma splitext_png:
  "splitext (s @ ''.png'') =
     (if \<exists>c \<in> set (takeWhile (\<lambda>c. c \<noteq> CHR ''/'') (rev s)). c \<noteq> CHR ''.''
      then (s, ''.png'') else (s @ ''.png'', []))"
proof -
  let ?ns = "rev (takeWhile (\<lambda>c. c \<noteq> CHR ''/'') (rev s))"
  let ?hs = "rev (dropWhile (\<lambda>c. c \<noteq> CHR ''/'') (rev s))"
  have name: "rev (takeWhile (\<lambda>c. c \<noteq> CHR ''/'') (rev (s @ ''.png''))) = ?ns @ ''.png''"
    by simp
  have head: "rev (dropWhile (\<lambda>c. c \<noteq> CHR ''/'') (rev (s @ ''.png''))) = ?hs"
    by simp
  have hn: "?hs @ ?ns = s"
    by (metis rev_append rev_rev_ident takeWhile_dropWhile_id)
  have ext: "rev (takeWhile (\<lambda>c. c \<noteq> CHR ''.'') (rev (?ns @ ''.png''))) = ''png''"
    by simp
  have stem: "rev (drop 1 (dropWhile (\<lambda>c. c \<noteq> CHR ''.'') (rev (?ns @ ''.png'')))) = ?ns"
    by simp
  have dot: "CHR ''.'' \<in> set (?ns @ ''.png'')" by simp
  show ?thesis
    unfolding splitext_def Let_def name head ext stem
    using dot hn by (simp del: set_append append.simps rev_append)
qed

lemma base_png:
  assumes "endswith f ''.png''"
  shows "fst (splitext f) = f \<or> f = fst (splitext f) @ ''.png''"
proof -
  from assms obtain s where "f = s @ ''.png''" unfolding endswith_iff ..
  then show ?thesis by (simp add: splitext_png)
qed

lemma gaming_png: "fst (splitext ''gaming.png'') = ''gaming''"
  by (simp add: splitext_def)

lemma gaming_only:
  assumes "endswith f ''.png''" "fst (splitext f) = ''gaming''"
  shows "f = ''gaming.png''"
  using base_png[OF assms(1)] assms by (auto simp: endswith_def)

lemma nongaming_iff: "endswith f ''.png'' \<Longrightarrow> nongaming f \<longleftrightarrow> f \<noteq> ''gaming.png''"
  using gaming_only gaming_png by (auto simp: nongaming_def)

lemma imageset_dir_eq: "imageset_dir f = imageset_dir g \<longleftrightarrow> fst (splitext f) = fst (splitext g)"
  by (simp add: imageset_dir_def os_path_join_def)

lemma base_collision:
  assumes "endswith f ''.png''" "endswith g ''.png''" "f \<noteq> g"
    "fst (splitext f) = fst (splitext g)"
  shows "(f = g @ ''.png'' \<and> fst (splitext g) = g) \<or> (g = f @ ''.png'' \<and> fst (splitext f) = f)"
  using base_png[OF assms(1)] base_png[OF assms(2)] assms(3,4) by auto

lemma png_not_json: "endswith f ''.png'' \<Longrightarrow> f \<noteq> ''Contents.json''"
  by (auto simp: endswith_def)

lemma dot_png: "splitext ''.png'' = (''.png'', [])"
  by (simp add: splitext_def)

lemma dot_png_png: "splitext ''.png.png'' = (''.png'', ''.png'')"
  by (simp add: splitext_def)

subsection \<open>Updates of the file system\<close>

lemma length_dirs: "length source_dir = 11" "length dest_root = 11"
  by (simp_all add: source_dir_def dest_root_def)

lemma dirs_differ: "source_dir \<noteq> dest_root"
  by (simp add: source_dir_def dest_root_def)

lemma lookup_update: "q \<noteq> [] \<Longrightarrow> lookup (AList.update q n t) p = (if p = q then Some n else lookup t p)"
  by (simp add: lookup_def update_conv')

lemma upd_by_trans: "upd_by U t1 t2 \<Longrightarrow> upd_by U t0 t1 \<Longrightarrow> upd_by U t0 t2"
proof (induction rule: upd_by.induct)
  case same
  then show ?case .
next
  case (step t t' q n)
  then show ?case by (simp add: upd_by.step)
qed

lemma upd_by_mono: "upd_by U t t' \<Longrightarrow> U \<subseteq> V \<Longrightarrow> upd_by V t t'"
proof (induction rule: upd_by.induct)
  case (same t)
  show ?case by (rule upd_by.same)
next
  case (step t t' q n)
  then have "(q, n) \<in> V" by blast
  with step show ?case by (simp add: upd_by.step)
qed

lemma upd_by_lookup:
  "upd_by U t t' \<Longrightarrow> lookup t' p = lookup t p \<or> (\<exists>n. (p, n) \<in> U \<and> lookup t' p = Some n)"
  by (induction rule: upd_by.induct) (auto simp: lookup_update)

lemma upd_by_frame: "upd_by U t t' \<Longrightarrow> \<forall>n. (p, n) \<notin> U \<Longrightarrow> lookup t' p = lookup t p"
  using upd_by_lookup by blast

lemma upd_by_isdir: "upd_by U t t' \<Longrightarrow> isdir t p \<Longrightarrow> isdir t' p"
  by (induction rule: upd_by.induct) (auto simp: lookup_update isdir_def)


lemma entries_update:
  "q \<noteq> [] \<Longrightarrow> butlast q \<noteq> d \<Longrightarrow> entries (AList.update q n t) d = entries t d"
  by (induction t) (auto simp: entries_def)

lemma upd_by_entries:
  "upd_by U t t' \<Longrightarrow> \<forall>(q, n) \<in> U. butlast q \<noteq> d \<Longrightarrow> entries t' d = entries t d"
proof (induction rule: upd_by.induct)
  case (same t)
  show ?case by simp
next
  case (step t t' q n)
  then have "butlast q \<noteq> d" by blast
  with step show ?case by (simp add: entries_update)
qed

lemma changes_refl: "changes U E w w"
  by (simp add: changes_def upd_by.same)

lemma changes_trans:
  assumes "changes U E w0 w1" "changes U E w1 w2"
  shows "changes U E w0 w2"
proof -
  from assms obtain e1 e2 where "trace w1 = trace w0 @ e1" "set e1 \<subseteq> E"
      "trace w2 = trace w1 @ e2" "set e2 \<subseteq> E"
    unfolding changes_def by blast
  then have "trace w2 = trace w0 @ (e1 @ e2) \<and> set (e1 @ e2) \<subseteq> E" by simp
  then have "\<exists>evs. trace w2 = trace w0 @ evs \<and> set evs \<subseteq> E" by blast
  moreover have "upd_by U (fs w0) (fs w2)"
    using assms upd_by_trans unfolding changes_def by blast
  moreover have "stdout w2 = stdout w0" using assms unfolding changes_def by simp
  ultimately show ?thesis unfolding changes_def by blast
qed

lemma changes_mono:
  assumes "changes U E w w'" "U \<subseteq> V" "E \<subseteq> F"
  shows "changes V F w w'"
proof -
  from assms obtain evs where "trace w' = trace w @ evs" "set evs \<subseteq> F"
    unfolding changes_def by blast
  moreover have "upd_by V (fs w) (fs w')"
    using assms upd_by_mono unfolding changes_def by blast
  moreover have "stdout w' = stdout w" using assms unfolding changes_def by simp
  ultimately show ?thesis unfolding changes_def by blast
qed

subsection \<open>The library operations\<close>

lemma and_then_cases:
  assumes "and_then m k w = (r, w')"
  obtains (fail) e where "m w = (Inl e, w')" "r = Inl e"
        | (go) x w1 where "m w = (Inr x, w1)" "k x w1 = (r, w')"
proof (cases "m w")
  case (Pair a w1)
  show ?thesis
  proof (cases a)
    case (Inl e)
    with Pair assms have "m w = (Inl e, w')" "r = Inl e" by (simp_all add: and_then_def)
    then show ?thesis by (rule fail)
  next
    case (Inr x)
    with Pair assms have "m w = (Inr x, w1)" "k x w1 = (r, w')" by (simp_all add: and_then_def)
    then show ?thesis by (rule go)
  qed
qed

lemma mkdir_result:
  "mkdir p w = (r, w') \<Longrightarrow>
     (\<exists>e. r = Inl e \<and> w' = w \<and> (\<forall>q. e = FileExistsError q \<longrightarrow> path_exists (fs w) p))
   \<or> (r = Inr () \<and> lookup (fs w) p = None \<and> isdir (fs w) (butlast p) \<and> p \<noteq> []
       \<and> w' = w\<lparr>fs := AList.update p Dir (fs w), trace := trace w @ [Mkdir p]\<rparr>)"
  unfolding mkdir_def path_exists_def isdir_def
  by (cases "lookup (fs w) (butlast p)"; cases "the (lookup (fs w) (butlast p))";
      cases "lookup (fs w) p") (auto simp: lookup_def)

lemma upd_by_one:
  "(q, n) \<in> U \<Longrightarrow> q \<noteq> [] \<Longrightarrow> (n = Dir \<longrightarrow> lookup t q = None) \<Longrightarrow>
   (n \<noteq> Dir \<longrightarrow> lookup t q \<noteq> Some Dir) \<Longrightarrow> upd_by U t (AList.update q n t)"
  by (rule upd_by.step) (simp_all add: upd_by.same)

lemma mkdir_changes:
  assumes "mkdir p w = (r, w')"
  shows "changes {(p, Dir)} {Mkdir p} w w'"
proof -
  from mkdir_result[OF assms] show ?thesis
  proof
    assume "\<exists>e. r = Inl e \<and> w' = w \<and> (\<forall>q. e = FileExistsError q \<longrightarrow> path_exists (fs w) p)"
    then show ?thesis by (auto simp: changes_refl)
  next
    assume "r = Inr () \<and> lookup (fs w) p = None \<and> isdir (fs w) (butlast p) \<and> p \<noteq> []
       \<and> w' = w\<lparr>fs := AList.update p Dir (fs w), trace := trace w @ [Mkdir p]\<rparr>"
    then show ?thesis by (simp add: changes_def upd_by_one)
  qed
qed

lemma makedirs_step:
  assumes "makedirs name w = (r, w')"
  shows "(\<exists>e. name \<noteq> [] \<and> \<not> path_exists (fs w) (butlast name)
            \<and> makedirs (butlast name) w = (Inl e, w') \<and> r = Inl e
            \<and> (\<forall>q. e \<noteq> FileExistsError q))
       \<or> (\<exists>w1 r1. parent_made name w w1 \<and> mkdir name w1 = (r1, w')
            \<and> (r1 = Inr () \<and> r = Inr ()
                \<or> (\<exists>e. r1 = Inl e \<and> r = (if isdir (fs w') name then Inr () else Inl e))))"
proof (cases "name \<noteq> [] \<and> \<not> path_exists (fs w) (butlast name)")
  case False
  obtain r1 w2 where m: "mkdir name w = (r1, w2)" by (cases "mkdir name w")
  have pm: "parent_made name w w" by (simp only: parent_made_def if_not_P[OF False])
  from assms False m have "(case r1 of Inl e \<Rightarrow> if isdir (fs w2) name then (Inr (), w2) else (Inl e, w2)
           | Inr u \<Rightarrow> (Inr u, w2)) = (r, w')"
    by (subst (asm) makedirs.simps) (simp split: sum.splits)
  then have "w2 = w' \<and> (r1 = Inr () \<and> r = Inr ()
                \<or> (\<exists>e. r1 = Inl e \<and> r = (if isdir (fs w') name then Inr () else Inl e)))"
    by (cases r1) (auto split: if_splits)
  with pm m show ?thesis by blast
next
  case True
  obtain r0 w1 where p: "makedirs (butlast name) w = (r0, w1)" by (cases "makedirs (butlast name) w")
  obtain r1 w2 where m: "mkdir name w1 = (r1, w2)" by (cases "mkdir name w1")
  show ?thesis
  proof (cases "r0 = Inr () \<or> (\<exists>q. r0 = Inl (FileExistsError q))")
    case go: True
    with True p have pm: "parent_made name w w1" by (auto simp: parent_made_def)
    from go have "(case (r0, w1) of (Inl (FileExistsError q), w') \<Rightarrow> (Inr (), w') | r \<Rightarrow> r) = (Inr (), w1)"
      by auto
    with assms True p m have "(case r1 of Inl e \<Rightarrow> if isdir (fs w2) name then (Inr (), w2) else (Inl e, w2)
           | Inr u \<Rightarrow> (Inr u, w2)) = (r, w')"
      by (subst (asm) makedirs.simps) (simp split: sum.splits)
    then have "w2 = w' \<and> (r1 = Inr () \<and> r = Inr ()
                \<or> (\<exists>e. r1 = Inl e \<and> r = (if isdir (fs w') name then Inr () else Inl e)))"
      by (cases r1) (auto split: if_splits)
    with pm m show ?thesis by blast
  next
    case stop: False
    then obtain e where e: "r0 = Inl e" "\<forall>q. e \<noteq> FileExistsError q" by (cases r0) auto
    then have "(case (r0, w1) of (Inl (FileExistsError q), w') \<Rightarrow> (Inr (), w') | r \<Rightarrow> r) = (Inl e, w1)"
      by (cases e) auto
    with assms True p have "(Inl e, w1) = (r, w')"
      by (subst (asm) makedirs.simps) simp
    with True p e show ?thesis by auto
  qed
qed

lemma makedirs_phases:
  assumes "makedirs name w = (r, w')"
  obtains (parent_failed) e where "name \<noteq> []" "\<not> path_exists (fs w) (butlast name)"
            "makedirs (butlast name) w = (Inl e, w')"
        | (child) w1 r1 where "parent_made name w w1" "mkdir name w1 = (r1, w')"
  using makedirs_step[OF assms] by blast

lemma makedirs_changes:
  "makedirs p w = (r, w') \<Longrightarrow> changes {(q, Dir) | q. prefix q p} {Mkdir q | q. prefix q p} w w'"
proof (induction p w arbitrary: r w' rule: makedirs.induct)
  case (1 name w)
  let ?U = "{(q, Dir) | q. prefix q name}" and ?E = "{Mkdir q | q. prefix q name}"
  have pre: "prefix q (butlast name) \<Longrightarrow> prefix q name" for q
    by (metis prefix_order.order_trans prefixeq_butlast)
  have sub: "{(q, Dir) | q. prefix q (butlast name)} \<subseteq> ?U"
       "{Mkdir q | q. prefix q (butlast name)} \<subseteq> ?E"
    using pre by blast+
  have rec: "changes ?U ?E w w1"
    if "name \<noteq> [] \<and> \<not> path_exists (fs w) (butlast name)" "makedirs (butlast name) w = (r1, w1)"
    for r1 w1
    using changes_mono[OF "1.IH"[OF that] sub] .
  from "1.prems" show ?case
  proof (cases rule: makedirs_phases)
    case (parent_failed e)
    then show ?thesis using rec by blast
  next
    case (child w1 r1)
    note pm = child(1) and m = child(2)
    have "changes ?U ?E w w1"
    proof (cases "name \<noteq> [] \<and> \<not> path_exists (fs w) (butlast name)")
      case True
      with pm rec show ?thesis unfolding parent_made_def by auto
    next
      case False
      with pm have "w1 = w" unfolding parent_made_def by (simp only: if_False)
      then show ?thesis by (simp add: changes_refl)
    qed
    moreover have "changes ?U ?E w1 w'"
      by (rule changes_mono[OF mkdir_changes[OF m]]) auto
    ultimately show ?thesis by (rule changes_trans)
  qed
qed

lemma makedirs_isdir:
  assumes "makedirs p w = (Inr (), w')"
  shows "isdir (fs w') p"
proof -
  from makedirs_step[OF assms] obtain w1 r1 where m: "mkdir p w1 = (r1, w')"
    and r: "r1 = Inr () \<or> (\<exists>e. r1 = Inl e \<and> Inr () = (if isdir (fs w') p then Inr () else Inl e))"
    by auto
  from r show ?thesis
  proof
    assume "r1 = Inr ()"
    with mkdir_result[OF m] show ?thesis by (auto simp: isdir_def lookup_update)
  next
    assume "\<exists>e. r1 = Inl e \<and> Inr () = (if isdir (fs w') p then Inr () else Inl e)"
    then show ?thesis by (auto split: if_splits)
  qed
qed




lemma store_result:
  "store p b ev w = (r, w') \<Longrightarrow>
     (\<exists>e. r = Inl e \<and> w' = w)
   \<or> (r = Inr () \<and> p \<noteq> [] \<and> isdir (fs w) (butlast p) \<and> \<not> isdir (fs w) p
       \<and> w' = w\<lparr>fs := AList.update p (File b) (fs w), trace := trace w @ [ev]\<rparr>)"
  unfolding store_def isdir_def
  by (cases "lookup (fs w) (butlast p)"; cases "the (lookup (fs w) (butlast p))";
      cases "lookup (fs w) p = Some Dir") (auto simp: lookup_def)


lemma store_changes:
  assumes "store p b ev w = (r, w')"
  shows "changes {(p, File b)} {ev} w w'"
proof -
  from store_result[OF assms] show ?thesis
  proof
    assume "\<exists>e. r = Inl e \<and> w' = w"
    then show ?thesis by (auto simp: changes_refl)
  next
    assume "r = Inr () \<and> p \<noteq> [] \<and> isdir (fs w) (butlast p) \<and> \<not> isdir (fs w) p
       \<and> w' = w\<lparr>fs := AList.update p (File b) (fs w), trace := trace w @ [ev]\<rparr>"
    then show ?thesis by (simp add: changes_def upd_by_one isdir_def)
  qed
qed

lemma read_file_result:
  "read_file p w = (r, w') \<Longrightarrow>
     w' = w \<and> ((\<exists>e. r = Inl e \<and> (\<forall>b. lookup (fs w) p \<noteq> Some (File b) \<or> \<not> isdir (fs w) (butlast p)))
       \<or> (\<exists>b. r = Inr b \<and> lookup (fs w) p = Some (File b) \<and> isdir (fs w) (butlast p)))"
  unfolding read_file_def isdir_def
  by (cases "lookup (fs w) (butlast p)"; cases "the (lookup (fs w) (butlast p))";
      cases "lookup (fs w) p"; cases "the (lookup (fs w) p)") auto

lemma length_imageset_dir [simp]: "length (imageset_dir f) = 12"
  by (simp add: imageset_dir_def os_path_join_def length_dirs)

lemma butlast_imageset_dir [simp]: "butlast (imageset_dir f) = dest_root"
  by (simp add: imageset_dir_def os_path_join_def)

lemma shutil_copy_result:
  assumes "shutil_copy src dst w = (r, w')"
  shows "(\<exists>e. r = Inl e \<and> w' = w)
       \<or> (\<exists>b d. d = (if isdir (fs w) dst then dst @ [basename src] else dst)
              \<and> r = Inr () \<and> lookup (fs w) src = Some (File b) \<and> isdir (fs w) (butlast src)
              \<and> d \<noteq> [] \<and> isdir (fs w) (butlast d) \<and> \<not> isdir (fs w) d
              \<and> w' = w\<lparr>fs := AList.update d (File b) (fs w), trace := trace w @ [Copy src d]\<rparr>)"
proof -
  define d where "d = (if isdir (fs w) dst then dst @ [basename src] else dst)"
  have eq: "shutil_copy src dst w =
      (if src = d \<and> path_exists (fs w) src then (Inl (SameFileError src), w)
       else and_then (read_file src) (\<lambda>b. store d b (Copy src d)) w)"
    unfolding shutil_copy_def d_def os_path_join_def Let_def ..
  show ?thesis
  proof (cases "src = d \<and> path_exists (fs w) src")
    case True
    from assms have "(Inl (SameFileError src), w) = (r, w')"
      unfolding eq if_P[OF True] by simp
    then show ?thesis by auto
  next
    case False
    from assms have "and_then (read_file src) (\<lambda>b. store d b (Copy src d)) w = (r, w')"
      unfolding eq if_not_P[OF False] .
    then show ?thesis
    proof (cases rule: and_then_cases)
      case (fail e)
      with read_file_result[OF fail(1)] show ?thesis by simp
    next
      case (go b w1)
      from read_file_result[OF go(1)] have w1: "w1 = w" and b: "lookup (fs w) src = Some (File b)"
        "isdir (fs w) (butlast src)" by auto
      from store_result[OF go(2)] w1 b d_def show ?thesis by blast
    qed
  qed
qed

lemma shutil_copy_changes:
  assumes "shutil_copy src dst w = (r, w')"
  shows "changes {(q, File b) | q b. q = dst \<or> q = dst @ [basename src]}
           {Copy src q | q. q = dst \<or> q = dst @ [basename src]} w w'"
proof -
  from shutil_copy_result[OF assms] show ?thesis
  proof (elim disjE exE conjE)
    fix e assume "r = Inl e" "w' = w"
    then show ?thesis by (simp add: changes_refl)
  next
    fix b d
    assume d: "d = (if isdir (fs w) dst then dst @ [basename src] else dst)"
    assume a: "d \<noteq> []" "\<not> isdir (fs w) d"
      "w' = w\<lparr>fs := AList.update d (File b) (fs w), trace := trace w @ [Copy src d]\<rparr>"
    have dd: "d = dst \<or> d = dst @ [basename src]" using d by (simp split: if_splits)
    have "upd_by {(q, File b) | q b. q = dst \<or> q = dst @ [basename src]} (fs w)
            (AList.update d (File b) (fs w))"
      using a(1,2) dd by (intro upd_by_one) (auto simp: isdir_def)
    moreover have "Copy src d \<in> {Copy src q | q. q = dst \<or> q = dst @ [basename src]}"
      using dd by blast
    ultimately show ?thesis using a(3) by (simp add: changes_def)
  qed
qed

lemma shutil_copy_dir_fails:
  assumes "isdir (fs w) src"
  shows "\<exists>e. shutil_copy src dst w = (Inl e, w)"
proof -
  obtain r w' where c: "shutil_copy src dst w = (r, w')" by (cases "shutil_copy src dst w")
  from shutil_copy_result[OF c] assms have "\<exists>e. r = Inl e \<and> w' = w"
    by (auto simp: isdir_def)
  with c show ?thesis by auto
qed

subsection \<open>The loop body\<close>

lemma import_icon_gaming: "fst (splitext f) = ''gaming'' \<Longrightarrow> import_icon f w = (Inr (), w)"
  by (simp add: import_icon_def)

lemma import_icon_phases:
  assumes "import_icon f w = (r, w')" "fst (splitext f) \<noteq> ''gaming''"
  obtains (mkdir_failed) e where "makedirs (imageset_dir f) w = (Inl e, w')" "r = Inl e"
    | (copy_failed) w1 e where "makedirs (imageset_dir f) w = (Inr (), w1)"
        "shutil_copy (source_path f) (imageset_dir f @ [f]) w1 = (Inl e, w')" "r = Inl e"
    | (written) w1 w2 where "makedirs (imageset_dir f) w = (Inr (), w1)"
        "shutil_copy (source_path f) (imageset_dir f @ [f]) w1 = (Inr (), w2)"
        "store (descriptor_path f) (json_dumps 2 (get_1x_contents_json f))
           (Write (descriptor_path f) (json_dumps 2 (get_1x_contents_json f))) w2 = (r, w')"
proof -
  from assms have "and_then (makedirs (imageset_dir f)) (\<lambda>_.
           and_then (shutil_copy (source_path f) (imageset_dir f @ [f])) (\<lambda>_.
           json_dump_to (descriptor_path f) (get_1x_contents_json f))) w = (r, w')"
    by (simp add: import_icon_def source_path_def descriptor_path_def os_path_join_def)
  then show ?thesis
  proof (cases rule: and_then_cases)
    case (fail e)
    then show ?thesis by (rule mkdir_failed)
  next
    case (go x w1)
    from go(2) show ?thesis
    proof (cases rule: and_then_cases)
      case (fail e)
      with go(1) show ?thesis by (intro copy_failed) auto
    next
      case inner: (go y w2)
      with go(1) show ?thesis by (intro written) (auto simp: json_dump_to_def)
    qed
  qed
qed

lemma import_icon_changes:
  assumes "import_icon f w = (r, w')"
  shows "changes (touched f) (emitted f) w w'"
proof (cases "fst (splitext f) = ''gaming''")
  case True
  with assms show ?thesis by (simp add: import_icon_gaming changes_refl)
next
  case False
  have mk: "changes (touched f) (emitted f) w w1" if "makedirs (imageset_dir f) w = (r1, w1)" for r1 w1
    by (rule changes_mono[OF makedirs_changes[OF that]]) (auto simp: touched_def emitted_def False)
  have cp: "changes (touched f) (emitted f) w1 w2"
    if "shutil_copy (source_path f) (imageset_dir f @ [f]) w1 = (r2, w2)" for r2 w1 w2
    by (rule changes_mono[OF shutil_copy_changes[OF that]])
       (auto simp: touched_def emitted_def False basename_def source_path_def os_path_join_def)
  have st: "changes (touched f) (emitted f) w2 w3"
    if "store (descriptor_path f) (json_dumps 2 (get_1x_contents_json f))
           (Write (descriptor_path f) (json_dumps 2 (get_1x_contents_json f))) w2 = (r3, w3)" for r3 w2 w3
    by (rule changes_mono[OF store_changes[OF that]]) (auto simp: touched_def emitted_def False)
  from assms False show ?thesis
  proof (cases rule: import_icon_phases)
    case (mkdir_failed e)
    then show ?thesis using mk by blast
  next
    case (copy_failed w1 e)
    show ?thesis
      by (rule changes_trans[OF mk[OF copy_failed(1)] cp[OF copy_failed(2)]])
  next
    case (written w1 w2)
    show ?thesis
      by (rule changes_trans[OF changes_trans[OF mk[OF written(1)] cp[OF written(2)]] st[OF written(3)]])
  qed
qed

text \<open>The paths the body touches are apart from the source directory and, for
  different candidates, from one another.\<close>

lemma prefix_same_length: "prefix p q \<Longrightarrow> length p = length q \<Longrightarrow> p = q"
  by (auto simp: prefix_def)

lemma source_not_touched: "(source_path f, n) \<notin> touched g"
proof
  assume a: "(source_path f, n) \<in> touched g"
  have len: "length (source_path f) = 12" by (simp add: source_path_def os_path_join_def length_dirs)
  from a have "prefix (source_path f) (imageset_dir g)
      \<or> source_path f = imageset_dir g @ [g] \<or> source_path f = imageset_dir g @ [g, g]
      \<or> source_path f = descriptor_path g"
    by (auto simp: touched_def split: if_splits)
  then show False
  proof (elim disjE)
    assume "prefix (source_path f) (imageset_dir g)"
    then have "source_path f = imageset_dir g" using len by (intro prefix_same_length) simp_all
    then have "butlast (source_path f) = butlast (imageset_dir g)" by simp
    then show False using dirs_differ by (simp add: source_path_def os_path_join_def)
  next
    assume "source_path f = imageset_dir g @ [g]"
    then have "length (source_path f) = length (imageset_dir g @ [g])" by simp
    with len show False by simp
  next
    assume "source_path f = imageset_dir g @ [g, g]"
    then have "length (source_path f) = length (imageset_dir g @ [g, g])" by simp
    with len show False by simp
  next
    assume "source_path f = descriptor_path g"
    then have "length (source_path f) = length (descriptor_path g)" by simp
    with len show False by (simp add: descriptor_path_def os_path_join_def)
  qed
qed

lemma touched_cases:
  assumes "(p, n) \<in> touched g"
  obtains (dir) "nongaming g" "prefix p (imageset_dir g)" "n = Dir"
    | (copy) b where "nongaming g" "p = imageset_dir g @ [g] \<or> p = imageset_dir g @ [g, g]" "n = File b"
    | (desc) "nongaming g" "p = descriptor_path g" "n = File (descriptor_text g)"
  using assms unfolding touched_def nongaming_def descriptor_text_def
  by (cases "fst (splitext g) = ''gaming''") auto

lemma touched_length:
  assumes "(p, n) \<in> touched g"
  shows "(length p \<le> 12 \<and> n = Dir \<and> (length p = 12 \<longrightarrow> p = imageset_dir g))
       \<or> (length p = 13 \<and> (\<exists>b. n = File b)) \<or> (length p = 14 \<and> (\<exists>b. n = File b))"
  using assms
proof (cases rule: touched_cases)
  case dir
  then have "length p \<le> 12" using prefix_length_le by fastforce
  moreover have "length p = 12 \<longrightarrow> p = imageset_dir g"
    using prefix_same_length[OF dir(2)] by simp
  ultimately show ?thesis using dir by simp
next
  case (copy b)
  then show ?thesis by auto
next
  case desc
  then show ?thesis by (simp add: descriptor_path_def os_path_join_def)
qed


lemma copy_path_touched:
  assumes "(imageset_dir f @ [f], n) \<in> touched g" "f \<noteq> ''Contents.json''"
  shows "g = f \<and> (\<exists>b. n = File b)"
  using assms(1)
proof (cases rule: touched_cases)
  case dir
  then show ?thesis using touched_length[OF assms(1)] by auto
next
  case (copy b)
  then have "imageset_dir f @ [f] = imageset_dir g @ [g]"
    by (auto dest: arg_cong[where f=length])
  then show ?thesis using copy by simp
next
  case desc
  then show ?thesis using assms(2) by (simp add: descriptor_path_def os_path_join_def)
qed

lemma copy_path2_touched:
  assumes "(imageset_dir f @ [f, f], n) \<in> touched g"
  shows "g = f \<and> (\<exists>b. n = File b)"
  using assms(1)
proof (cases rule: touched_cases)
  case dir
  then show ?thesis using touched_length[OF assms(1)] by auto
next
  case (copy b)
  then have "imageset_dir f @ [f, f] = imageset_dir g @ [g, g]"
    by (auto dest: arg_cong[where f=length])
  then show ?thesis using copy by simp
next
  case desc
  then show ?thesis by (auto simp: descriptor_path_def os_path_join_def dest: arg_cong[where f=length])
qed

lemma descriptor_path_touched:
  assumes "(descriptor_path f, n) \<in> touched g" "g \<noteq> ''Contents.json''"
  shows "nongaming g \<and> imageset_dir g = imageset_dir f \<and> n = File (descriptor_text g)"
  using assms(1)
proof (cases rule: touched_cases)
  case dir
  then show ?thesis using touched_length[OF assms(1)]
    by (auto simp: descriptor_path_def os_path_join_def)
next
  case (copy b)
  then show ?thesis using assms(2)
    by (auto simp: descriptor_path_def os_path_join_def dest: arg_cong[where f=length])
next
  case desc
  then show ?thesis by (simp add: descriptor_path_def os_path_join_def)
qed

lemma import_icon_success:
  assumes "import_icon f w = (Inr (), w')" "nongaming f"
  shows "\<exists>b evs. lookup (fs w) (source_path f) = Some (File b) \<and> isdir (fs w) source_dir
       \<and> isdir (fs w') (imageset_dir f)
       \<and> (f \<noteq> ''Contents.json'' \<longrightarrow> lookup (fs w') (copy_target (fs w) f) = Some (File b))
       \<and> lookup (fs w') (descriptor_path f) = Some (File (descriptor_text f))
       \<and> trace w' = trace w @ evs @ [Copy (source_path f) (copy_target (fs w) f),
                                         Write (descriptor_path f) (descriptor_text f)]
       \<and> set evs \<subseteq> {Mkdir q | q. prefix q (imageset_dir f)}
       \<and> stdout w' = stdout w"
proof -
  from assms have ng: "fst (splitext f) \<noteq> ''gaming''" by (simp add: nongaming_def)
  from assms(1) ng show ?thesis
  proof (cases rule: import_icon_phases)
    case (mkdir_failed e)
    then show ?thesis by simp
  next
    case (copy_failed w1 e)
    then show ?thesis by simp
  next
    case (written w1 w2)
    let ?I = "imageset_dir f" and ?S = "source_path f" and ?D = "descriptor_path f"
    let ?U = "{(q, Dir) | q. prefix q ?I}"
    from makedirs_changes[OF written(1)] obtain evs where
      u1: "upd_by ?U (fs w) (fs w1)" and t1: "trace w1 = trace w @ evs"
      "set evs \<subseteq> {Mkdir q | q. prefix q ?I}" and o1: "stdout w1 = stdout w"
      unfolding changes_def by blast
    have lenS: "length ?S = 12" by (simp add: source_path_def os_path_join_def length_dirs)
    have "\<not> prefix ?S ?I"
    proof
      assume "prefix ?S ?I"
      from prefix_same_length[OF this] lenS have "butlast ?S = butlast ?I" by simp
      then show False using dirs_differ by (simp add: source_path_def os_path_join_def)
    qed
    then have S1: "lookup (fs w1) ?S = lookup (fs w) ?S"
      by (intro upd_by_frame[OF u1]) simp
    have "\<not> prefix source_dir ?I"
    proof
      assume "prefix source_dir ?I"
      then have "prefix source_dir dest_root"
        by (auto simp: imageset_dir_def os_path_join_def length_dirs dest: arg_cong[where f=length])
      from prefix_same_length[OF this] show False using dirs_differ by (simp add: length_dirs)
    qed
    then have sd1: "lookup (fs w1) source_dir = lookup (fs w) source_dir"
      by (intro upd_by_frame[OF u1]) simp
    have "\<not> prefix (?I @ [f]) ?I" by (simp add: prefix_def)
    then have "lookup (fs w1) (?I @ [f]) = lookup (fs w) (?I @ [f])"
      by (intro upd_by_frame[OF u1]) simp
    then have ct: "(if isdir (fs w1) (?I @ [f]) then (?I @ [f]) @ [basename ?S] else ?I @ [f])
        = copy_target (fs w) f"
      by (simp add: copy_target_def isdir_def os_path_join_def basename_def source_path_def)
    from shutil_copy_result[OF written(2)] ct obtain b where
      b: "lookup (fs w1) ?S = Some (File b)" "isdir (fs w1) (butlast ?S)"
      and w2: "w2 = w1\<lparr>fs := AList.update (copy_target (fs w) f) (File b) (fs w1),
                  trace := trace w1 @ [Copy ?S (copy_target (fs w) f)]\<rparr>"
      by auto
    from store_result[OF written(3)] have
      w': "w' = w2\<lparr>fs := AList.update ?D (File (descriptor_text f)) (fs w2),
                  trace := trace w2 @ [Write ?D (descriptor_text f)]\<rparr>"
      and D: "?D \<noteq> []"
      by (auto simp: descriptor_text_def)
    have ctne: "copy_target (fs w) f \<noteq> []" by (simp add: copy_target_def os_path_join_def)
    have "isdir (fs w1) ?I" by (rule makedirs_isdir[OF written(1)])
    moreover have "?I \<noteq> copy_target (fs w) f" "?I \<noteq> ?D"
      by (auto simp: copy_target_def os_path_join_def descriptor_path_def)
    ultimately have 1: "isdir (fs w') ?I"
      using w2 w' D ctne by (simp add: isdir_def lookup_update)
    have 2: "lookup (fs w') (copy_target (fs w) f) = Some (File b)" if "f \<noteq> ''Contents.json''"
    proof -
      from that have "copy_target (fs w) f \<noteq> ?D"
        by (auto simp: copy_target_def os_path_join_def descriptor_path_def)
      then show ?thesis using w2 w' D ctne by (simp add: lookup_update)
    qed
    have 3: "lookup (fs w') ?D = Some (File (descriptor_text f))"
      using w' D by (simp add: lookup_update)
    have 4: "trace w' = trace w @ evs @ [Copy ?S (copy_target (fs w) f), Write ?D (descriptor_text f)]"
      using w' w2 t1 by simp
    have 5: "stdout w' = stdout w" using w' w2 o1 by simp
    have 6: "isdir (fs w) source_dir" using b(2) sd1
      by (simp add: isdir_def source_path_def os_path_join_def)
    from b S1 1 2 3 4 5 6 t1(2) show ?thesis by auto
  qed
qed

subsection \<open>The loop\<close>

lemma for_files_append:
  "for_files (xs @ ys) w =
     (case for_files xs w of (Inl e, w') \<Rightarrow> (Inl e, w') | (Inr u, w') \<Rightarrow> for_files ys w')"
proof (induction xs arbitrary: w)
  case Nil
  show ?case by simp
next
  case (Cons x xs)
  show ?case
  proof (cases "import_icon x w")
    case (Pair r w1)
    then show ?thesis using Cons by (cases r) (simp_all add: and_then_def)
  qed
qed

lemma for_files_Cons_cases:
  assumes "for_files (f # files) w = (r, w')"
  obtains (stopped) e where "import_icon f w = (Inl e, w')" "r = Inl e"
    | (continued) w1 where "import_icon f w = (Inr (), w1)" "for_files files w1 = (r, w')"
proof -
  from assms have "and_then (import_icon f) (\<lambda>_. for_files files) w = (r, w')" by simp
  then show ?thesis
  proof (cases rule: and_then_cases)
    case (fail e)
    then show ?thesis by (rule stopped)
  next
    case (go x w1)
    then show ?thesis by (intro continued) auto
  qed
qed

lemma for_files_changes:
  "for_files files w = (r, w') \<Longrightarrow>
     changes (\<Union>f \<in> set files. touched f) (\<Union>f \<in> set files. emitted f) w w'"
proof (induction files arbitrary: w r w')
  case Nil
  then show ?case by (simp add: changes_refl)
next
  case (Cons f files)
  let ?U = "\<Union>g \<in> set (f # files). touched g" and ?E = "\<Union>g \<in> set (f # files). emitted g"
  have one: "changes ?U ?E w0 w1" if "import_icon f w0 = (r0, w1)" for r0 w0 w1
    by (rule changes_mono[OF import_icon_changes[OF that]]) auto
  have rest: "changes ?U ?E w1 w2" if "for_files files w1 = (r0, w2)" for r0 w1 w2
    by (rule changes_mono[OF Cons.IH[OF that]]) auto
  from Cons.prems show ?case
  proof (cases rule: for_files_Cons_cases)
    case (stopped e)
    then show ?thesis using one by blast
  next
    case (continued w1)
    show ?thesis by (rule changes_trans[OF one[OF continued(1)] rest[OF continued(2)]])
  qed
qed

lemma for_files_frame:
  assumes "for_files files w = (r, w')" "\<forall>g \<in> set files. \<forall>n. (p, n) \<notin> touched g"
  shows "lookup (fs w') p = lookup (fs w) p"
proof -
  from for_files_changes[OF assms(1)] have "upd_by (\<Union>f \<in> set files. touched f) (fs w) (fs w')"
    by (simp add: changes_def)
  then show ?thesis by (rule upd_by_frame) (use assms(2) in auto)
qed

lemma import_icon_frame:
  assumes "import_icon f w = (r, w')" "\<forall>n. (p, n) \<notin> touched f"
  shows "lookup (fs w') p = lookup (fs w) p"
proof -
  from import_icon_changes[OF assms(1)] have "upd_by (touched f) (fs w) (fs w')"
    by (simp add: changes_def)
  then show ?thesis by (rule upd_by_frame) (use assms(2) in auto)
qed

text \<open>Whether the place of a copy is a directory never changes.\<close>

lemma upd_by_not_dir:
  assumes "upd_by U t t'" "\<forall>n. (p, n) \<in> U \<longrightarrow> n \<noteq> Dir"
  shows "isdir t' p \<longleftrightarrow> isdir t p"
proof
  assume "isdir t p"
  then show "isdir t' p" by (rule upd_by_isdir[OF assms(1)])
next
  assume a: "isdir t' p"
  from upd_by_lookup[OF assms(1), of p] show "isdir t p"
  proof
    assume "lookup t' p = lookup t p"
    with a show ?thesis by (simp add: isdir_def)
  next
    assume "\<exists>n. (p, n) \<in> U \<and> lookup t' p = Some n"
    with assms(2) a show ?thesis by (auto simp: isdir_def)
  qed
qed

lemma copy_place_isdir:
  assumes "upd_by (\<Union>g \<in> S. touched g) t t'" "length p = 13 \<or> length p = 14"
  shows "isdir t' p \<longleftrightarrow> isdir t p"
proof (rule upd_by_not_dir[OF assms(1)], intro allI impI)
  fix n assume "(p, n) \<in> (\<Union>g \<in> S. touched g)"
  then obtain g where "(p, n) \<in> touched g" by blast
  with touched_length[of p n g] assms(2) show "n \<noteq> Dir" by auto
qed

lemma copy_target_stable:
  assumes "upd_by (\<Union>g \<in> S. touched g) t t'"
  shows "copy_target t' f = copy_target t f"
  unfolding copy_target_def os_path_join_def
  using copy_place_isdir[OF assms, of "imageset_dir f @ [f]"] by simp

lemma copy_target_touched:
  assumes "(copy_target t f, n) \<in> touched g" "f \<noteq> ''Contents.json''"
  shows "g = f"
proof (cases "isdir t (imageset_dir f @ [f])")
  case True
  with assms have "(imageset_dir f @ [f, f], n) \<in> touched g"
    by (simp add: copy_target_def os_path_join_def)
  then show ?thesis using copy_path2_touched by blast
next
  case False
  with assms have "(imageset_dir f @ [f], n) \<in> touched g"
    by (simp add: copy_target_def os_path_join_def)
  then show ?thesis using copy_path_touched assms(2) by blast
qed

lemma for_files_container:
  "for_files files w = (Inr (), w') \<Longrightarrow> f \<in> set files \<Longrightarrow> nongaming f \<Longrightarrow>
   isdir (fs w') (imageset_dir f)"
proof (induction files arbitrary: w)
  case Nil
  then show ?case by simp
next
  case (Cons g files)
  from Cons.prems(1) obtain w1 where
    g: "import_icon g w = (Inr (), w1)" and rest: "for_files files w1 = (Inr (), w')"
    by (cases rule: for_files_Cons_cases) auto
  show ?case
  proof (cases "f \<in> set files")
    case True
    then show ?thesis using Cons.IH[OF rest] Cons.prems(3) by simp
  next
    case False
    with Cons.prems(2) have "g = f" by simp
    with import_icon_success[OF g] Cons.prems(3) have "isdir (fs w1) (imageset_dir f)" by auto
    moreover from for_files_changes[OF rest]
    have "upd_by (\<Union>f \<in> set files. touched f) (fs w1) (fs w')" by (simp add: changes_def)
    ultimately show ?thesis by (rule upd_by_isdir[rotated])
  qed
qed

lemma for_files_copy:
  "for_files files w = (Inr (), w') \<Longrightarrow> f \<in> set files \<Longrightarrow> nongaming f \<Longrightarrow>
   \<forall>g \<in> set files. g \<noteq> ''Contents.json'' \<Longrightarrow>
   \<exists>b. lookup (fs w) (source_path f) = Some (File b)
     \<and> lookup (fs w') (copy_target (fs w) f) = Some (File b)"
proof (induction files arbitrary: w)
  case Nil
  then show ?case by simp
next
  case (Cons g files)
  from Cons.prems(1) obtain w1 where
    g: "import_icon g w = (Inr (), w1)" and rest: "for_files files w1 = (Inr (), w')"
    by (cases rule: for_files_Cons_cases) auto
  from import_icon_changes[OF g] have u: "upd_by (\<Union>h \<in> {g}. touched h) (fs w) (fs w1)"
    by (simp add: changes_def)
  show ?case
  proof (cases "f \<in> set files")
    case True
    with Cons.IH[OF rest] Cons.prems(3,4) obtain b where
      "lookup (fs w1) (source_path f) = Some (File b)"
      "lookup (fs w') (copy_target (fs w1) f) = Some (File b)" by auto
    moreover have "lookup (fs w1) (source_path f) = lookup (fs w) (source_path f)"
      by (rule import_icon_frame[OF g]) (simp add: source_not_touched)
    moreover have "copy_target (fs w1) f = copy_target (fs w) f"
      by (rule copy_target_stable[OF u])
    ultimately show ?thesis by simp
  next
    case False
    with Cons.prems(2) have gf: "g = f" by simp
    from Cons.prems(4) have fc: "f \<noteq> ''Contents.json''" using gf by simp
    from import_icon_success[OF g] gf fc Cons.prems(3) obtain b where
      b: "lookup (fs w) (source_path f) = Some (File b)"
         "lookup (fs w1) (copy_target (fs w) f) = Some (File b)" by auto
    have "lookup (fs w') (copy_target (fs w) f) = lookup (fs w1) (copy_target (fs w) f)"
    proof (rule for_files_frame[OF rest], intro ballI allI notI)
      fix h n assume "h \<in> set files" "(copy_target (fs w) f, n) \<in> touched h"
      with copy_target_touched[OF _ fc] False show False by blast
    qed
    with b show ?thesis by simp
  qed
qed

lemma for_files_descriptor:
  "for_files files w = (Inr (), w') \<Longrightarrow> container_mates files f \<noteq> [] \<Longrightarrow>
   \<forall>g \<in> set files. g \<noteq> ''Contents.json'' \<Longrightarrow>
   lookup (fs w') (descriptor_path f)
     = Some (File (descriptor_text (last (container_mates files f))))"
proof (induction files arbitrary: w)
  case Nil
  then show ?case by (simp add: container_mates_def)
next
  case (Cons g files)
  from Cons.prems(1) obtain w1 where
    g: "import_icon g w = (Inr (), w1)" and rest: "for_files files w1 = (Inr (), w')"
    by (cases rule: for_files_Cons_cases) auto
  show ?case
  proof (cases "container_mates files f = []")
    case False
    then have "last (container_mates (g # files) f) = last (container_mates files f)"
      by (simp add: container_mates_def)
    with Cons.IH[OF rest False] Cons.prems(3) show ?thesis by simp
  next
    case True
    with Cons.prems(2) have mate: "nongaming g" "imageset_dir g = imageset_dir f"
      and only: "container_mates (g # files) f = [g]"
      by (auto simp: container_mates_def split: if_splits)
    from mate(2) have dp: "descriptor_path g = descriptor_path f"
      by (simp add: descriptor_path_def)
    from import_icon_success[OF g mate(1)] dp
    have "lookup (fs w1) (descriptor_path f) = Some (File (descriptor_text g))" by auto
    moreover have "lookup (fs w') (descriptor_path f) = lookup (fs w1) (descriptor_path f)"
    proof (rule for_files_frame[OF rest], intro ballI allI notI)
      fix h n assume h: "h \<in> set files" "(descriptor_path f, n) \<in> touched h"
      with Cons.prems(3) have "h \<noteq> ''Contents.json''" by simp
      from descriptor_path_touched[OF h(2) this] h(1) have "h \<in> set (container_mates files f)"
        by (simp add: container_mates_def)
      with True show False by simp
    qed
    ultimately show ?thesis using only by simp
  qed
qed

lemma filter_mkdirs: "set evs \<subseteq> {Mkdir q | q. P q} \<Longrightarrow> filter (\<lambda>e. \<not> is_mkdir e) evs = []"
  by (induction evs) (auto simp: is_mkdir_def)

lemma for_files_trace:
  "for_files files w = (Inr (), w') \<Longrightarrow>
   \<exists>evs. trace w' = trace w @ evs
     \<and> filter (\<lambda>e. \<not> is_mkdir e) evs = concat (map (payload (fs w)) (filter nongaming files))"
proof (induction files arbitrary: w)
  case Nil
  then show ?case by simp
next
  case (Cons g files)
  from Cons.prems(1) obtain w1 where
    g: "import_icon g w = (Inr (), w1)" and rest: "for_files files w1 = (Inr (), w')"
    by (cases rule: for_files_Cons_cases) auto
  from import_icon_changes[OF g] have u: "upd_by (\<Union>h \<in> {g}. touched h) (fs w) (fs w1)"
    by (simp add: changes_def)
  have pl: "payload (fs w1) = payload (fs w)"
    by (rule ext) (simp add: payload_def copy_target_stable[OF u])
  from Cons.IH[OF rest] pl obtain evs where
    evs: "trace w' = trace w1 @ evs"
      "filter (\<lambda>e. \<not> is_mkdir e) evs = concat (map (payload (fs w)) (filter nongaming files))"
    by auto
  show ?case
  proof (cases "nongaming g")
    case False
    then have "w1 = w" using g by (simp add: nongaming_def import_icon_gaming)
    with evs False show ?thesis by simp
  next
    case True
    from import_icon_success[OF g True] obtain mk where
      mk: "trace w1 = trace w @ mk @ payload (fs w) g"
        "set mk \<subseteq> {Mkdir q | q. prefix q (imageset_dir g)}"
      by (auto simp: payload_def)
    from filter_mkdirs[OF mk(2)] have "filter (\<lambda>e. \<not> is_mkdir e) (mk @ payload (fs w) g @ evs)
        = payload (fs w) g @ filter (\<lambda>e. \<not> is_mkdir e) evs"
      by (simp add: payload_def is_mkdir_def)
    with evs mk True have "trace w' = trace w @ (mk @ payload (fs w) g @ evs)
      \<and> filter (\<lambda>e. \<not> is_mkdir e) (mk @ payload (fs w) g @ evs)
          = concat (map (payload (fs w)) (filter nongaming (g # files)))"
      by simp
    then show ?thesis by blast
  qed
qed

subsection \<open>The run\<close>

lemma root_changes:
  assumes "makedirs dest_root w = (r, w0)"
  shows "entries (fs w0) source_dir = entries (fs w) source_dir"
    and "length p > 11 \<Longrightarrow> lookup (fs w0) p = lookup (fs w) p"
    and "lookup (fs w0) source_dir = lookup (fs w) source_dir"
    and "copy_target (fs w0) f = copy_target (fs w) f"
    and "\<exists>evs. trace w0 = trace w @ evs \<and> set evs \<subseteq> {Mkdir q | q. prefix q dest_root}"
    and "stdout w0 = stdout w"
    and "isdir (fs w) q \<Longrightarrow> isdir (fs w0) q"
proof -
  let ?U = "{(q, Dir) | q. prefix q dest_root}"
  from makedirs_changes[OF assms] have u: "upd_by ?U (fs w) (fs w0)"
    and "\<exists>evs. trace w0 = trace w @ evs \<and> set evs \<subseteq> {Mkdir q | q. prefix q dest_root}"
    and "stdout w0 = stdout w"
    unfolding changes_def by auto
  then show "\<exists>evs. trace w0 = trace w @ evs \<and> set evs \<subseteq> {Mkdir q | q. prefix q dest_root}"
    and "stdout w0 = stdout w" by auto
  have len: "length q \<le> 11" if "prefix q dest_root" for q
    using prefix_length_le[OF that] by (simp add: length_dirs)
  show "entries (fs w0) source_dir = entries (fs w) source_dir"
  proof (rule upd_by_entries[OF u], clarify)
    fix q assume q: "prefix q dest_root" "butlast q = source_dir"
    from q(2) have "length q = 12" by (cases q rule: rev_cases) (auto simp: source_dir_def)
    with len[OF q(1)] show False by simp
  qed
  show "lookup (fs w0) p = lookup (fs w) p" if "length p > 11"
    by (rule upd_by_frame[OF u]) (use len that in fastforce)
  show "lookup (fs w0) source_dir = lookup (fs w) source_dir"
  proof (rule upd_by_frame[OF u], clarify)
    fix n assume "prefix source_dir dest_root"
    from prefix_same_length[OF this] show False using dirs_differ by (simp add: length_dirs)
  qed
  have "isdir (fs w0) (imageset_dir f @ [f]) \<longleftrightarrow> isdir (fs w) (imageset_dir f @ [f])"
    by (rule upd_by_not_dir[OF u]) (use len in fastforce)
  then show "copy_target (fs w0) f = copy_target (fs w) f"
    by (simp add: copy_target_def os_path_join_def)
  show "isdir (fs w0) q" if "isdir (fs w) q" by (rule upd_by_isdir[OF u that])
qed

lemma main_cases:
  assumes "main w = (r, w')"
  obtains (no_root) e where "makedirs dest_root w = (Inl e, w')" "r = Inl e"
    | (no_source) w0 e where "makedirs dest_root w = (Inr (), w0)"
        "listdir source_dir w0 = (Inl e, w')" "r = Inl e" "w' = w0" "\<not> isdir (fs w0) source_dir"
    | (stopped) w0 e where "makedirs dest_root w = (Inr (), w0)" "isdir (fs w0) source_dir"
        "for_files (candidates (fs w0)) w0 = (Inl e, w')" "r = Inl e"
    | (completed) w0 w1 where "makedirs dest_root w = (Inr (), w0)" "isdir (fs w0) source_dir"
        "for_files (candidates (fs w0)) w0 = (Inr (), w1)" "r = Inr ()"
        "w' = w1\<lparr>stdout := stdout w1 @ [summary (candidates (fs w0))]\<rparr>"
proof -
  from assms have "and_then (makedirs dest_root) (\<lambda>_.
     and_then (listdir source_dir) (\<lambda>names.
       let files = filter (\<lambda>f. endswith f ''.png'') names
       in and_then (for_files files) (\<lambda>_.
          print (''Processed '' @ str_int (int (length files)) @ '' icons.'')))) w = (r, w')"
    by (simp add: main_def)
  then show ?thesis
  proof (cases rule: and_then_cases)
    case (fail e)
    then show ?thesis by (rule no_root)
  next
    case (go x w0)
    from go(2) show ?thesis
    proof (cases rule: and_then_cases)
      case (fail e)
      then have "w' = w0 \<and> \<not> isdir (fs w0) source_dir"
        by (auto simp: listdir_def isdir_def split: option.splits node.splits)
      with fail go(1) show ?thesis by (intro no_source) auto
    next
      case ls: (go names w0')
      then have n: "names = entries (fs w0) source_dir" "w0' = w0" "isdir (fs w0) source_dir"
        by (auto simp: listdir_def isdir_def split: option.splits node.splits)
      with ls(2) have "and_then (for_files (candidates (fs w0))) (\<lambda>_.
          print (summary (candidates (fs w0)))) w0 = (r, w')"
        by (simp add: candidates_def summary_def Let_def)
      then show ?thesis
      proof (cases rule: and_then_cases)
        case (fail e)
        with go(1) n(3) show ?thesis by (intro stopped) auto
      next
        case lp: (go y w1)
        with go(1) n(3) show ?thesis by (intro completed) (auto simp: print_def)
      qed
    qed
  qed
qed

lemma candidates_root:
  assumes "makedirs dest_root (initial t) = (r, w0)"
  shows "candidates (fs w0) = candidates t"
  using root_changes(1)[OF assms] by (simp add: candidates_def initial_def)

lemma run_cases:
  assumes "run t = (r, w')"
  obtains (no_root) e where "makedirs dest_root (initial t) = (Inl e, w')" "r = Inl e"
    | (no_source) e where "makedirs dest_root (initial t) = (Inr (), w')"
        "r = Inl e" "\<not> isdir (fs w') source_dir"
        "e = (if path_exists (fs w') source_dir then NotADirectoryError source_dir
              else FileNotFoundError source_dir)"
    | (stopped) w0 e where "makedirs dest_root (initial t) = (Inr (), w0)" "isdir (fs w0) source_dir"
        "for_files (candidates t) w0 = (Inl e, w')" "r = Inl e"
    | (completed) w0 w1 where "makedirs dest_root (initial t) = (Inr (), w0)" "isdir (fs w0) source_dir"
        "for_files (candidates t) w0 = (Inr (), w1)" "r = Inr ()"
        "w' = w1\<lparr>stdout := stdout w1 @ [summary (candidates t)]\<rparr>"
proof -
  from assms have "main (initial t) = (r, w')" by (simp add: run_def)
  then show ?thesis
  proof (cases rule: main_cases)
    case (no_root e)
    then show ?thesis by (rule that(1))
  next
    case (no_source w0 e)
    from no_source(2) have "e = (if path_exists (fs w') source_dir then NotADirectoryError source_dir
              else FileNotFoundError source_dir)"
      using no_source(4)
      by (auto simp: listdir_def path_exists_def split: option.splits node.splits)
    with no_source show ?thesis by (intro that(2)) auto
  next
    case (stopped w0 e)
    with candidates_root[OF stopped(1)] show ?thesis by (intro that(3)) auto
  next
    case (completed w0 w1)
    with candidates_root[OF completed(1)] show ?thesis by (intro that(4)) auto
  qed
qed

lemma run_changes:
  assumes "run t = (r, w')"
  shows "upd_by ({(q, Dir) | q. prefix q dest_root} \<union> (\<Union>f \<in> set (candidates t). touched f)) t (fs w')"
    and "set (trace w') \<subseteq> {Mkdir q | q. prefix q dest_root} \<union> (\<Union>f \<in> set (candidates t). emitted f)"
proof -
  let ?U = "{(q, Dir) | q. prefix q dest_root} \<union> (\<Union>f \<in> set (candidates t). touched f)"
  let ?E = "{Mkdir q | q. prefix q dest_root} \<union> (\<Union>f \<in> set (candidates t). emitted f)"
  have root: "changes ?U ?E (initial t) w0" if "makedirs dest_root (initial t) = (r0, w0)" for r0 w0
    by (rule changes_mono[OF makedirs_changes[OF that]]) auto
  have loop: "changes ?U ?E w0 w1" if "for_files (candidates t) w0 = (r1, w1)" for r1 w0 w1
    by (rule changes_mono[OF for_files_changes[OF that]]) auto
  have "\<exists>w1. changes ?U ?E (initial t) w1 \<and> fs w' = fs w1 \<and> trace w' = trace w1"
    using assms
  proof (cases rule: run_cases)
    case (no_root e)
    then show ?thesis using root by blast
  next
    case (no_source e)
    then show ?thesis using root by blast
  next
    case (stopped w0 e)
    from changes_trans[OF root[OF stopped(1)] loop[OF stopped(3)]] show ?thesis by blast
  next
    case (completed w0 w1)
    from changes_trans[OF root[OF completed(1)] loop[OF completed(3)]] completed(5)
    show ?thesis by auto
  qed
  then obtain w1 where c: "changes ?U ?E (initial t) w1" and e: "fs w' = fs w1" "trace w' = trace w1"
    by blast
  from c e show "upd_by ?U t (fs w')" by (simp add: changes_def initial_def)
  from c e show "set (trace w') \<subseteq> ?E" by (auto simp: changes_def initial_def)
qed

lemma for_files_skip_gaming:
  "\<forall>f \<in> set files. endswith f ''.png'' \<Longrightarrow>
   for_files files w = for_files (filter (\<lambda>f. f \<noteq> ''gaming.png'') files) w"
proof (induction files arbitrary: w)
  case Nil
  show ?case by simp
next
  case (Cons f files)
  show ?case
  proof (cases "f = ''gaming.png''")
    case True
    then have "import_icon f w = (Inr (), w)" by (simp add: import_icon_gaming gaming_png)
    then show ?thesis using True Cons by (simp add: and_then_def)
  next
    case False
    have "and_then (import_icon f) (\<lambda>_. for_files files) w
        = and_then (import_icon f) (\<lambda>_. for_files (filter (\<lambda>f. f \<noteq> ''gaming.png'') files)) w"
      using Cons by (auto simp: and_then_def split: prod.splits sum.splits)
    with False show ?thesis by simp
  qed
qed

lemma gaming_dir_not_container:
  assumes "nongaming f" shows "imageset_dir f \<noteq> os_path_join dest_root ''gaming.imageset''"
  using assms by (simp add: nongaming_def imageset_dir_def os_path_join_def)

lemma gaming_not_touched:
  assumes "f \<in> set (candidates t)"
  shows "(os_path_join dest_root ''gaming.imageset'' @ q, n) \<notin> touched f"
proof
  let ?G = "os_path_join dest_root ''gaming.imageset''"
  have lenG: "length ?G = 12" by (simp add: os_path_join_def length_dirs)
  assume a: "(?G @ q, n) \<in> touched f"
  then show False
  proof (cases rule: touched_cases)
    case dir
    from prefix_length_le[OF dir(2)] lenG have "q = []" by simp
    with dir(2) lenG have "?G = imageset_dir f" by (intro prefix_same_length) simp_all
    with gaming_dir_not_container[OF dir(1)] show False by simp
  next
    case (copy b)
    then obtain r where "?G @ q = imageset_dir f @ r" by auto
    with lenG have "?G = imageset_dir f" by simp
    with gaming_dir_not_container[OF copy(1)] show False by simp
  next
    case desc
    then have "?G @ q = imageset_dir f @ [''Contents.json'']"
      by (simp add: descriptor_path_def os_path_join_def)
    with lenG have "?G = imageset_dir f" by simp
    with gaming_dir_not_container[OF desc(1)] show False by simp
  qed
qed

lemma candidates_png: "f \<in> set (candidates t) \<Longrightarrow> endswith f ''.png''"
  by (simp add: candidates_def)

lemma candidates_not_json: "\<forall>g \<in> set (candidates t). g \<noteq> ''Contents.json''"
  using candidates_png png_not_json by blast

lemma run_artifacts:
  assumes "run t = (Inr (), w')" "f \<in> set (candidates t)" "nongaming f"
  shows "isdir (fs w') (imageset_dir f)"
    and "\<exists>b. lookup t (source_path f) = Some (File b)
           \<and> lookup (fs w') (copy_target t f) = Some (File b)"
    and "lookup (fs w') (descriptor_path f)
           = Some (File (descriptor_text (last (container_mates (candidates t) f))))"
proof -
  from assms(1) obtain w0 w1 where
    root: "makedirs dest_root (initial t) = (Inr (), w0)"
    and loop: "for_files (candidates t) w0 = (Inr (), w1)"
    and w': "fs w' = fs w1"
    by (cases rule: run_cases) auto
  show "isdir (fs w') (imageset_dir f)"
    using for_files_container[OF loop assms(2,3)] w' by simp
  have "length (source_path f) > 11" by (simp add: source_path_def os_path_join_def length_dirs)
  from root_changes(2)[OF root this] have s: "lookup (fs w0) (source_path f) = lookup t (source_path f)"
    by (simp add: initial_def)
  from root_changes(4)[OF root] have c: "copy_target (fs w0) f = copy_target t f"
    by (simp add: initial_def)
  from for_files_copy[OF loop assms(2,3) candidates_not_json] s c w'
  show "\<exists>b. lookup t (source_path f) = Some (File b)
           \<and> lookup (fs w') (copy_target t f) = Some (File b)" by simp
  from assms(2,3) have "container_mates (candidates t) f \<noteq> []"
    by (auto simp: container_mates_def filter_empty_conv)
  from for_files_descriptor[OF loop this candidates_not_json] w'
  show "lookup (fs w') (descriptor_path f)
           = Some (File (descriptor_text (last (container_mates (candidates t) f))))" by simp
qed

lemma distinct_entries:
  assumes "distinct (map fst t)"
  shows "distinct (entries t d)"
proof -
  let ?xs = "filter (\<lambda>(q, n). q \<noteq> [] \<and> butlast q = d) t"
  have "inj_on (\<lambda>(q, n). last q) (set ?xs)"
  proof (rule inj_onI, clarify)
    fix q n q' n'
    assume a: "(q, n) \<in> set ?xs" "(q', n') \<in> set ?xs" "last q = last q'"
    then have ne: "q \<noteq> []" "q' \<noteq> []" and bl: "butlast q = butlast q'" by auto
    have "q = butlast q @ [last q]" using ne(1) by simp
    also have "\<dots> = butlast q' @ [last q']" using bl a(3) by simp
    also have "\<dots> = q'" using ne(2) by simp
    finally have qq: "q = q'" .
    from a have "(q, n) \<in> set t" "(q', n') \<in> set t" by auto
    with qq assms have "n = n'" by (auto dest: eq_key_imp_eq_value)
    with qq show "q = q' \<and> n = n'" by simp
  qed
  moreover have "distinct ?xs" using assms by (simp add: distinct_map_filter distinct_map)
  ultimately show ?thesis unfolding entries_def by (simp add: distinct_map)
qed

lemma distinct_candidates: "distinct (map fst t) \<Longrightarrow> distinct (candidates t)"
  by (simp add: candidates_def distinct_entries)

lemma sole_mate:
  assumes "f \<in> set files" "nongaming f"
    "\<forall>g \<in> set files. g \<noteq> f \<longrightarrow> imageset_dir g \<noteq> imageset_dir f"
  shows "last (container_mates files f) = f"
proof -
  define cm where "cm = container_mates files f"
  have sub: "g \<in> set files \<and> imageset_dir g = imageset_dir f" if "g \<in> set cm" for g
    using that unfolding cm_def container_mates_def by simp
  have "f \<in> set cm" using assms(1,2) unfolding cm_def container_mates_def by simp
  then have "cm \<noteq> []" by (cases cm) simp_all
  then have "last cm \<in> set cm" by (rule last_in_set)
  from sub[OF this] assms(3) have "last cm = f" by blast
  then show ?thesis by (simp add: cm_def)
qed

lemma prefix_container:
  assumes "length c = 12"
  shows "prefix c (imageset_dir g @ r) \<longleftrightarrow> c = imageset_dir g"
proof
  assume "prefix c (imageset_dir g @ r)"
  then obtain zs where "imageset_dir g @ r = c @ zs" by (auto simp: prefix_def)
  with assms show "c = imageset_dir g" by simp
next
  assume "c = imageset_dir g"
  then show "prefix c (imageset_dir g @ r)" by simp
qed

lemma into_append:
  "copies_into c (xs @ ys) = copies_into c xs @ copies_into c ys"
  "writes_into c (xs @ ys) = writes_into c xs @ writes_into c ys"
  by (simp_all add: copies_into_def writes_into_def)

lemma payload_into_one:
  assumes "length c = 12"
  shows "copies_into c (payload u g)
           = (if imageset_dir g = c then [Copy (source_path g) (copy_target u g)] else [])"
    and "writes_into c (payload u g)
           = (if imageset_dir g = c then [Write (descriptor_path g) (descriptor_text g)] else [])"
proof -
  have "prefix c (copy_target u g) \<longleftrightarrow> c = imageset_dir g"
    using prefix_container[OF assms, of g "[g]"] prefix_container[OF assms, of g "[g, g]"]
    by (simp add: copy_target_def os_path_join_def)
  then have ct: "prefix c (copy_target u g) \<longleftrightarrow> imageset_dir g = c" by blast
  have "prefix c (descriptor_path g) \<longleftrightarrow> c = imageset_dir g"
    using prefix_container[OF assms, of g "[''Contents.json'']"]
    by (simp add: descriptor_path_def os_path_join_def)
  then have dp: "prefix c (descriptor_path g) \<longleftrightarrow> imageset_dir g = c" by blast
  show "copies_into c (payload u g)
           = (if imageset_dir g = c then [Copy (source_path g) (copy_target u g)] else [])"
    unfolding copies_into_def payload_def by (simp add: ct)
  show "writes_into c (payload u g)
           = (if imageset_dir g = c then [Write (descriptor_path g) (descriptor_text g)] else [])"
    unfolding writes_into_def payload_def by (simp add: dp)
qed

lemma payload_into:
  assumes "length c = 12"
  shows "copies_into c (concat (map (payload u) xs))
           = map (\<lambda>g. Copy (source_path g) (copy_target u g)) (filter (\<lambda>g. imageset_dir g = c) xs)"
    and "writes_into c (concat (map (payload u) xs))
           = map (\<lambda>g. Write (descriptor_path g) (descriptor_text g)) (filter (\<lambda>g. imageset_dir g = c) xs)"
proof -
  show "copies_into c (concat (map (payload u) xs))
           = map (\<lambda>g. Copy (source_path g) (copy_target u g)) (filter (\<lambda>g. imageset_dir g = c) xs)"
  proof (induction xs)
    case Nil
    show ?case by (simp add: copies_into_def)
  next
    case (Cons g xs)
    then show ?case by (simp add: into_append payload_into_one(1)[OF assms])
  qed
  show "writes_into c (concat (map (payload u) xs))
           = map (\<lambda>g. Write (descriptor_path g) (descriptor_text g)) (filter (\<lambda>g. imageset_dir g = c) xs)"
  proof (induction xs)
    case Nil
    show ?case by (simp add: writes_into_def)
  next
    case (Cons g xs)
    then show ?case by (simp add: into_append payload_into_one(2)[OF assms])
  qed
qed

lemma into_nonmkdir:
  "copies_into c evs = copies_into c (filter (\<lambda>e. \<not> is_mkdir e) evs)"
  "writes_into c evs = writes_into c (filter (\<lambda>e. \<not> is_mkdir e) evs)"
  by (induction evs) (auto simp: copies_into_def writes_into_def is_mkdir_def split: event.splits)

lemma run_trace:
  assumes "run t = (Inr (), w')"
  shows "filter (\<lambda>e. \<not> is_mkdir e) (trace w')
           = concat (map (payload t) (filter nongaming (candidates t)))"
  using assms
proof (cases rule: run_cases)
  case (completed w0 w1)
  from root_changes(5)[OF completed(1)] obtain mk where
    mk: "trace w0 = mk" "set mk \<subseteq> {Mkdir q | q. prefix q dest_root}"
    by (auto simp: initial_def)
  from root_changes(4)[OF completed(1)] have "payload (fs w0) = payload t"
    by (intro ext) (simp add: payload_def initial_def)
  with for_files_trace[OF completed(3)] obtain evs where
    evs: "trace w1 = trace w0 @ evs"
      "filter (\<lambda>e. \<not> is_mkdir e) evs = concat (map (payload t) (filter nongaming (candidates t)))"
    by auto
  with mk filter_mkdirs[OF mk(2)] completed(5) show ?thesis by simp
qed simp_all

lemma filter_sole:
  assumes "distinct xs" "f \<in> set xs" "\<forall>g \<in> set xs. P g \<longleftrightarrow> g = f"
  shows "filter P xs = [f]"
proof -
  have "filter P xs = filter (\<lambda>g. g = f) xs" using assms(3) by (intro filter_cong) auto
  also have "\<dots> = [f]" using assms(1,2)
    by (induction xs) (auto simp: filter_empty_conv)
  finally show ?thesis .
qed

subsection \<open>A body that ends with an error\<close>




lemma import_icon_dir:
  assumes "isdir (fs w) (source_path f)" "nongaming f"
  shows "\<exists>e w'. import_icon f w = (Inl e, w')"
    and "isdir (fs w) source_dir \<Longrightarrow> makedirs (imageset_dir f) w = (Inr (), w1) \<Longrightarrow>
         import_icon f w = (Inl (IsADirectoryError (source_path f)), w1)"
proof -
  have ng: "fst (splitext f) \<noteq> ''gaming''" using assms(2) by (simp add: nongaming_def)
  have keep: "isdir (fs w1) p" if "makedirs (imageset_dir f) w = (r1, w1)" "isdir (fs w) p" for r1 w1 p
  proof -
    from makedirs_changes[OF that(1)]
    have "upd_by {(q, Dir) | q. prefix q (imageset_dir f)} (fs w) (fs w1)" by (simp add: changes_def)
    from upd_by_isdir[OF this that(2)] show ?thesis .
  qed
  obtain r w' where i: "import_icon f w = (r, w')" by (cases "import_icon f w")
  from i ng have "\<exists>e. r = Inl e"
  proof (cases rule: import_icon_phases)
    case (written w1 w2)
    from shutil_copy_dir_fails[OF keep[OF written(1) assms(1)], of "imageset_dir f @ [f]"] written(2)
    show ?thesis by simp
  qed auto
  with i show "\<exists>e w'. import_icon f w = (Inl e, w')" by auto
  show "import_icon f w = (Inl (IsADirectoryError (source_path f)), w1)"
    if sd: "isdir (fs w) source_dir" and mk: "makedirs (imageset_dir f) w = (Inr (), w1)"
  proof -
    let ?S = "source_path f"
    let ?d = "if isdir (fs w1) (imageset_dir f @ [f]) then (imageset_dir f @ [f]) @ [basename ?S]
              else imageset_dir f @ [f]"
    have "length ?S = 12" by (simp add: source_path_def os_path_join_def length_dirs)
    then have ne: "?S \<noteq> ?d" by (auto dest: arg_cong[where f=length])
    have "lookup (fs w1) (butlast ?S) = Some Dir"
      using keep[OF mk sd] by (simp add: isdir_def source_path_def os_path_join_def)
    moreover have "lookup (fs w1) ?S = Some Dir" using keep[OF mk assms(1)] by (simp add: isdir_def)
    ultimately have rd: "read_file ?S w1 = (Inl (IsADirectoryError ?S), w1)"
      by (simp add: read_file_def)
    have "shutil_copy ?S (imageset_dir f @ [f]) w1 = (Inl (IsADirectoryError ?S), w1)"
      unfolding shutil_copy_def Let_def os_path_join_def using ne rd
      by (simp add: and_then_def)
    with mk ng show ?thesis
      by (simp add: import_icon_def and_then_def source_path_def os_path_join_def)
  qed
qed

lemma for_files_dir:
  "f \<in> set files \<Longrightarrow> nongaming f \<Longrightarrow> isdir (fs w) (source_path f) \<Longrightarrow>
   \<exists>e w'. for_files files w = (Inl e, w')"
proof (induction files arbitrary: w)
  case Nil
  then show ?case by simp
next
  case (Cons g files)
  obtain r w1 where i: "import_icon g w = (r, w1)" by (cases "import_icon g w")
  show ?case
  proof (cases r)
    case (Inl e)
    with i show ?thesis by (simp add: and_then_def)
  next
    case (Inr u)
    with i import_icon_dir(1)[OF Cons.prems(3,2)] have "g \<noteq> f" by auto
    with Cons.prems(1) have m: "f \<in> set files" by simp
    from import_icon_changes[OF i] have "upd_by (touched g) (fs w) (fs w1)" by (simp add: changes_def)
    from upd_by_isdir[OF this Cons.prems(3)] have "isdir (fs w1) (source_path f)" .
    from Cons.IH[OF m Cons.prems(2) this] i Inr show ?thesis by (simp add: and_then_def)
  qed
qed

lemma isdir_entry:
  assumes "isdir t (d @ [f])" shows "f \<in> set (entries t d)"
proof -
  from assms have "map_of t (d @ [f]) = Some Dir" by (simp add: isdir_def lookup_def)
  then have "(d @ [f], Dir) \<in> set t" by (rule map_of_SomeD)
  then have "(d @ [f], Dir) \<in> set (filter (\<lambda>(q, n). q \<noteq> [] \<and> butlast q = d) t)" by simp
  then have "(\<lambda>(q, n). last q) (d @ [f], Dir) \<in> set (entries t d)"
    unfolding entries_def set_map by (rule imageI)
  then show ?thesis by simp
qed

lemma run_failed_stdout:
  assumes "run t = (Inl e, w')" shows "stdout w' = []"
  using assms
proof (cases rule: run_cases)
  case (no_root e)
  from root_changes(6)[OF no_root(1)] show ?thesis by (simp add: initial_def)
next
  case (no_source e)
  from root_changes(6)[OF no_source(1)] show ?thesis by (simp add: initial_def)
next
  case (stopped w0 e)
  from root_changes(6)[OF stopped(1)] for_files_changes[OF stopped(3)] show ?thesis
    by (simp add: initial_def changes_def)
qed simp

lemma run_stopped:
  assumes "makedirs dest_root (initial t) = (Inr (), w0)" "isdir t source_dir"
    "for_files (candidates t) w0 = (Inl e, w2)"
  shows "run t = (Inl e, w2)"
proof -
  from root_changes(7)[OF assms(1), of source_dir] assms(2) have "isdir (fs w0) source_dir"
    by (simp add: initial_def)
  then have "listdir source_dir w0 = (Inr (entries (fs w0) source_dir), w0)"
    by (simp add: listdir_def isdir_def)
  moreover have "filter (\<lambda>f. endswith f ''.png'') (entries (fs w0) source_dir) = candidates t"
    using candidates_root[OF assms(1)] by (simp add: candidates_def)
  ultimately show ?thesis using assms(1,3)
    by (simp add: run_def main_def and_then_def Let_def)
qed

subsection \<open>A second run\<close>








section \<open>Example runs\<close>


lemma run_example:
  "run example_icons =
     (Inr (), \<lparr>fs = example_icons @ [(butlast dest_root, Dir), (dest_root, Dir)]
                 @ imported ''sports.png'' ''S'' @ imported ''music.png'' ''M'',
               trace = [Mkdir (butlast dest_root), Mkdir dest_root,
                        Mkdir (imageset_dir ''sports.png'')] @ payload example_icons ''sports.png''
                        @ [Mkdir (imageset_dir ''music.png'')] @ payload example_icons ''music.png'',
               stdout = [''Processed 3 icons.'']\<rparr>)"
  by code_simp


lemma run_dotted:
  "run dotted_icons =
     (Inr (), \<lparr>fs = dotted_icons @ [(butlast dest_root, Dir), (dest_root, Dir),
                   (imageset_dir ''.png'', Dir), (imageset_dir ''.png'' @ [''.png''], File ''A''),
                   (descriptor_path ''.png'', File (descriptor_text ''.png.png'')),
                   (imageset_dir ''.png'' @ [''.png.png''], File ''B'')],
               trace = [Mkdir (butlast dest_root), Mkdir dest_root, Mkdir (imageset_dir ''.png'')]
                        @ payload dotted_icons ''.png'' @ payload dotted_icons ''.png.png'',
               stdout = [''Processed 2 icons.'']\<rparr>)"
  by code_simp

lemma dotted_entries: "entries dotted_icons source_dir = [''.png'', ''.png.png'']"
  by code_simp

lemma dotted_descriptors: "descriptor_text ''.png.png'' \<noteq> descriptor_text ''.png''"
  by (simp add: descriptor_text_def descriptor_bytes descriptor_layout_def
      encode_basestring_ascii_def escape_char_def)

lemma example_entries:
  "entries example_icons source_dir = [''sports.png'', ''music.png'', ''gaming.png'']"
  by code_simp

lemma example_distinct: "distinct (map fst example_icons)"
  by code_simp

lemma dotted_distinct: "distinct (map fst dotted_icons)"
  by code_simp

lemma dotted_into:
  "length (copies_into (imageset_dir ''.png'') (trace (snd (run dotted_icons)))) = 2"
  "length (writes_into (imageset_dir ''.png'') (trace (snd (run dotted_icons)))) = 2"
  unfolding run_dotted by code_simp+

lemma broken_root:
  "makedirs dest_root (initial broken_icons) =
     (Inr (), \<lparr>fs = broken_icons @ [(butlast dest_root, Dir), (dest_root, Dir)],
               trace = [Mkdir (butlast dest_root), Mkdir dest_root], stdout = []\<rparr>)"
  by code_simp

lemma broken_first:
  "for_files [''a.png'']
     \<lparr>fs = broken_icons @ [(butlast dest_root, Dir), (dest_root, Dir)],
      trace = [Mkdir (butlast dest_root), Mkdir dest_root], stdout = []\<rparr> =
     (Inr (), \<lparr>fs = broken_icons @ [(butlast dest_root, Dir), (dest_root, Dir)] @ imported ''a.png'' ''A'',
               trace = [Mkdir (butlast dest_root), Mkdir dest_root, Mkdir (imageset_dir ''a.png'')]
                        @ payload broken_icons ''a.png'',
               stdout = []\<rparr>)"
  by code_simp

lemma broken_second:
  "import_icon ''d.png''
     \<lparr>fs = broken_icons @ [(butlast dest_root, Dir), (dest_root, Dir)] @ imported ''a.png'' ''A'',
      trace = [Mkdir (butlast dest_root), Mkdir dest_root, Mkdir (imageset_dir ''a.png'')]
               @ payload broken_icons ''a.png'',
      stdout = []\<rparr> =
     (Inl (IsADirectoryError (source_path ''d.png'')),
      \<lparr>fs = broken_icons @ [(butlast dest_root, Dir), (dest_root, Dir)] @ imported ''a.png'' ''A''
              @ [(imageset_dir ''d.png'', Dir)],
       trace = [Mkdir (butlast dest_root), Mkdir dest_root, Mkdir (imageset_dir ''a.png'')]
                @ payload broken_icons ''a.png'' @ [Mkdir (imageset_dir ''d.png'')],
       stdout = []\<rparr>)"
  by code_simp

lemma broken_entries: "entries broken_icons source_dir = [''a.png'', ''d.png'', ''z.png'']"
  by code_simp


lemma broken_isdir:
  "isdir broken_icons source_dir" "isdir broken_icons (source_dir @ [''d.png''])"
  by code_simp+

lemma run_gaming_folder:
  "run gaming_folder =
     (Inr (), \<lparr>fs = gaming_folder @ [(butlast dest_root, Dir), (dest_root, Dir)],
               trace = [Mkdir (butlast dest_root), Mkdir dest_root],
               stdout = [''Processed 1 icons.'']\<rparr>)"
  by code_simp

lemma gaming_folder_isdir: "isdir gaming_folder (source_dir @ [''gaming.png''])"
  by code_simp

lemma broken_candidates: "candidates broken_icons = [''a.png''] @ ''d.png'' # [''z.png'']"
  by (simp add: candidates_def broken_entries endswith_def)

lemma broken_loop:
  "for_files (candidates broken_icons)
     \<lparr>fs = broken_icons @ [(butlast dest_root, Dir), (dest_root, Dir)],
      trace = [Mkdir (butlast dest_root), Mkdir dest_root], stdout = []\<rparr>
     = (Inl (IsADirectoryError (source_path ''d.png'')),
      \<lparr>fs = broken_icons @ [(butlast dest_root, Dir), (dest_root, Dir)] @ imported ''a.png'' ''A''
              @ [(imageset_dir ''d.png'', Dir)],
       trace = [Mkdir (butlast dest_root), Mkdir dest_root, Mkdir (imageset_dir ''a.png'')]
                @ payload broken_icons ''a.png'' @ [Mkdir (imageset_dir ''d.png'')],
       stdout = []\<rparr>)"
  unfolding broken_candidates for_files_append broken_first prod.case sum.case
  by (simp only: for_files.simps(2) and_then_def broken_second prod.case sum.case)

lemma run_broken:
  "run broken_icons =
     (Inl (IsADirectoryError (source_path ''d.png'')),
      \<lparr>fs = broken_icons @ [(butlast dest_root, Dir), (dest_root, Dir)] @ imported ''a.png'' ''A''
              @ [(imageset_dir ''d.png'', Dir)],
       trace = [Mkdir (butlast dest_root), Mkdir dest_root, Mkdir (imageset_dir ''a.png'')]
                @ payload broken_icons ''a.png'' @ [Mkdir (imageset_dir ''d.png'')],
       stdout = []\<rparr>)"
  by (rule run_stopped[OF broken_root broken_isdir(1) broken_loop])


section \<open>The claims\<close>



text \<open>
  C2, as stated, fails: with \<^verbatim>\<open>.png\<close> and \<^verbatim>\<open>.png.png\<close> in the source directory the run
  completes, both names end in \<^verbatim>\<open>.png\<close>, both have the base name \<^verbatim>\<open>.png\<close>, and the one
  \<^verbatim>\<open>Contents.json\<close> of \<^verbatim>\<open>.png.imageset\<close> names \<^verbatim>\<open>.png.png\<close>, not \<^verbatim>\<open>.png\<close>.
\<close>

theorem every_candidate_imported_counterexample:
  "fst (run dotted_icons) = Inr ()
   \<and> ''.png'' \<in> set (entries dotted_icons source_dir)
   \<and> endswith ''.png'' ''.png''
   \<and> fst (splitext ''.png'') = ''.png''
   \<and> fst (splitext ''.png'') \<noteq> ''gaming''
   \<and> lookup (fs (snd (run dotted_icons))) (dest_root @ [''.png.imageset'', ''Contents.json''])
       = Some (File (json_dumps 2 (get_1x_contents_json ''.png.png'')))
   \<and> json_dumps 2 (get_1x_contents_json ''.png.png'') \<noteq> json_dumps 2 (get_1x_contents_json ''.png'')"
proof -
  have "lookup (fs (snd (run dotted_icons))) (dest_root @ [''.png.imageset'', ''Contents.json''])
       = Some (File (json_dumps 2 (get_1x_contents_json ''.png.png'')))"
    unfolding run_dotted
    by (simp add: lookup_def dotted_icons_def source_tree_def dirs_to_def descriptor_path_def
        imageset_dir_def os_path_join_def dot_png descriptor_text_def source_dir_def dest_root_def
        upt_rec)
  then show ?thesis
    using dotted_descriptors
    by (simp add: run_dotted dotted_entries dot_png endswith_def descriptor_text_def)
qed

text \<open>
  C2, amended. After a run that completes, every entry \<open>f\<close> of the source directory that
  ends in \<^verbatim>\<open>.png\<close> and whose base name is not \<^verbatim>\<open>gaming\<close> has its container
  \<^verbatim>\<open><base>.imageset\<close> under the destination root; the container holds a file named \<open>f\<close>
  with the bytes of the source file, at \<^verbatim>\<open><container>/f\<close> or, when a directory stood there
  before the run, inside that directory; and its \<^verbatim>\<open>Contents.json\<close> is the descriptor
  naming \<open>f\<close>, provided no other candidate has the base name of \<open>f\<close>.
\<close>

theorem every_candidate_imported:
  assumes "run t = (Inr (), w')"
    and "f \<in> set (entries t source_dir)" and "endswith f ''.png''"
    and "fst (splitext f) \<noteq> ''gaming''"
  shows "isdir (fs w') (dest_root @ [fst (splitext f) @ ''.imageset''])
       \<and> (\<exists>b. lookup t (source_dir @ [f]) = Some (File b)
              \<and> lookup (fs w') (copy_target t f) = Some (File b))
       \<and> copy_target t f
           = (if isdir t (dest_root @ [fst (splitext f) @ ''.imageset'', f])
              then dest_root @ [fst (splitext f) @ ''.imageset'', f, f]
              else dest_root @ [fst (splitext f) @ ''.imageset'', f])
       \<and> ((\<forall>g \<in> set (entries t source_dir).
              endswith g ''.png'' \<longrightarrow> g \<noteq> f \<longrightarrow> fst (splitext g) \<noteq> fst (splitext f)) \<longrightarrow>
            lookup (fs w') (dest_root @ [fst (splitext f) @ ''.imageset'', ''Contents.json''])
              = Some (File (json_dumps 2 (get_1x_contents_json f))))"
proof -
  from assms(2,3) have c: "f \<in> set (candidates t)" by (simp add: candidates_def)
  from assms(4) have ng: "nongaming f" by (simp add: nongaming_def)
  note art = run_artifacts[OF assms(1) c ng]
  have I: "imageset_dir f = dest_root @ [fst (splitext f) @ ''.imageset'']"
    by (simp add: imageset_dir_def os_path_join_def)
  have 1: "isdir (fs w') (dest_root @ [fst (splitext f) @ ''.imageset''])"
    using art(1) by (simp add: I)
  have 2: "\<exists>b. lookup t (source_dir @ [f]) = Some (File b)
               \<and> lookup (fs w') (copy_target t f) = Some (File b)"
    using art(2) by (simp add: source_path_def os_path_join_def)
  have 3: "copy_target t f
           = (if isdir t (dest_root @ [fst (splitext f) @ ''.imageset'', f])
              then dest_root @ [fst (splitext f) @ ''.imageset'', f, f]
              else dest_root @ [fst (splitext f) @ ''.imageset'', f])"
    by (simp add: copy_target_def I os_path_join_def)
  have 4: "lookup (fs w') (dest_root @ [fst (splitext f) @ ''.imageset'', ''Contents.json''])
              = Some (File (json_dumps 2 (get_1x_contents_json f)))"
    if h: "\<forall>g \<in> set (entries t source_dir).
              endswith g ''.png'' \<longrightarrow> g \<noteq> f \<longrightarrow> fst (splitext g) \<noteq> fst (splitext f)"
  proof -
    from h have "\<forall>g \<in> set (candidates t). g \<noteq> f \<longrightarrow> imageset_dir g \<noteq> imageset_dir f"
      by (simp add: candidates_def imageset_dir_eq)
    from sole_mate[OF c ng this] art(3) show ?thesis
      by (simp add: descriptor_path_def descriptor_text_def I os_path_join_def)
  qed
  from 1 2 3 4 show ?thesis by blast
qed

theorem every_candidate_imported_witness:
  "run example_icons = (Inr (), snd (run example_icons))
   \<and> ''sports.png'' \<in> set (entries example_icons source_dir)
   \<and> endswith ''sports.png'' ''.png''
   \<and> fst (splitext ''sports.png'') = ''sports''
   \<and> \<not> isdir example_icons (dest_root @ [''sports.imageset'', ''sports.png''])
   \<and> isdir (fs (snd (run example_icons))) (dest_root @ [''sports.imageset''])
   \<and> lookup example_icons (source_dir @ [''sports.png'']) = Some (File ''S'')
   \<and> lookup (fs (snd (run example_icons))) (dest_root @ [''sports.imageset'', ''sports.png''])
       = Some (File ''S'')
   \<and> lookup (fs (snd (run example_icons))) (dest_root @ [''sports.imageset'', ''Contents.json''])
       = Some (File (json_dumps 2 (get_1x_contents_json ''sports.png'')))"
proof -
  have h1: "run example_icons = (Inr (), snd (run example_icons))" by (simp add: run_example)
  have h2: "''sports.png'' \<in> set (entries example_icons source_dir)"
    by (simp add: example_entries)
  have h3: "endswith ''sports.png'' ''.png''" by (simp add: endswith_def)
  have b: "fst (splitext ''sports.png'') = ''sports''" by (simp add: splitext_def)
  then have h4: "fst (splitext ''sports.png'') \<noteq> ''gaming''" by simp
  have h5: "\<not> isdir example_icons (dest_root @ [''sports.imageset'', ''sports.png''])"
    by code_simp
  have h6: "\<forall>g \<in> set (entries example_icons source_dir).
      endswith g ''.png'' \<longrightarrow> g \<noteq> ''sports.png'' \<longrightarrow> fst (splitext g) \<noteq> fst (splitext ''sports.png'')"
    unfolding example_entries b by (simp add: splitext_def)
  have s: "lookup example_icons (source_dir @ [''sports.png'']) = Some (File ''S'')"
    by code_simp
  from every_candidate_imported[OF h1 h2 h3 h4] h5 h6 s h1 h2 h3 b show ?thesis by auto
qed

text \<open>
  C3. In no run, whatever the source directory holds, is the directory
  \<^verbatim>\<open>gaming.imageset\<close> made, \<^verbatim>\<open>gaming.png\<close> copied, or anything copied or written at or
  below \<^verbatim>\<open>gaming.imageset\<close>: every path there is after the run what it was before. The
  loop over the candidates does what it does over the candidates other than
  \<^verbatim>\<open>gaming.png\<close>.
\<close>

theorem gaming_excluded:
  "Mkdir (os_path_join dest_root ''gaming.imageset'') \<notin> set (trace (snd (run t)))
   \<and> Copy (os_path_join source_dir ''gaming.png'') d \<notin> set (trace (snd (run t)))
   \<and> Copy s (os_path_join dest_root ''gaming.imageset'' @ q) \<notin> set (trace (snd (run t)))
   \<and> Write (os_path_join dest_root ''gaming.imageset'' @ q) b \<notin> set (trace (snd (run t)))
   \<and> lookup (fs (snd (run t))) (os_path_join dest_root ''gaming.imageset'' @ q)
       = lookup t (os_path_join dest_root ''gaming.imageset'' @ q)
   \<and> for_files (filter (\<lambda>f. endswith f ''.png'') (entries t source_dir)) w
       = for_files (filter (\<lambda>f. f \<noteq> ''gaming.png'')
           (filter (\<lambda>f. endswith f ''.png'') (entries t source_dir))) w"
proof -
  let ?G = "os_path_join dest_root ''gaming.imageset''"
  let ?T = "set (trace (snd (run t)))"
  have lenG: "length ?G = 12" by (simp add: os_path_join_def length_dirs)
  have r: "run t = (fst (run t), snd (run t))" by simp
  note tr = run_changes(2)[OF r] and up = run_changes(1)[OF r]
  have not_root: "\<not> prefix (?G @ q') dest_root" for q'
    using prefix_length_le[of "?G @ q'" dest_root] lenG by (auto simp: length_dirs)
  have G_of: False if "f \<in> set (candidates t)" "nongaming f" "?G @ q' = imageset_dir f @ q''"
    for f q' q''
  proof -
    from that(3) lenG have "?G = imageset_dir f" by simp
    with gaming_dir_not_container[OF that(2)] show False by simp
  qed
  have em: "nongaming f \<and> (e \<in> {Mkdir q | q. prefix q (imageset_dir f)}
       \<or> e \<in> {Copy (source_path f) q | q. q = imageset_dir f @ [f] \<or> q = imageset_dir f @ [f, f]}
       \<or> e = Write (descriptor_path f) (json_dumps 2 (get_1x_contents_json f)))"
    if "e \<in> emitted f" for e f
    using that unfolding emitted_def nongaming_def by (auto split: if_splits)
  have 1: "Mkdir ?G \<notin> ?T"
  proof
    assume "Mkdir ?G \<in> ?T"
    with tr not_root[of "[]"] obtain f where f: "f \<in> set (candidates t)" "Mkdir ?G \<in> emitted f"
      by auto
    from em[OF f(2)] have ng: "nongaming f" and "prefix ?G (imageset_dir f)" by auto
    from prefix_same_length[OF this(2)] lenG have "?G @ [] = imageset_dir f @ []" by simp
    from G_of[OF f(1) ng this] show False .
  qed
  have 2: "Copy (os_path_join source_dir ''gaming.png'') d \<notin> ?T"
  proof
    assume "Copy (os_path_join source_dir ''gaming.png'') d \<in> ?T"
    with tr obtain f where f: "f \<in> set (candidates t)"
      "Copy (os_path_join source_dir ''gaming.png'') d \<in> emitted f" by auto
    from em[OF f(2)] have "nongaming f" "f = ''gaming.png''"
      by (auto simp: source_path_def os_path_join_def)
    then show False by (simp add: nongaming_def gaming_png)
  qed
  have 3: "Copy s (?G @ q) \<notin> ?T"
  proof
    assume "Copy s (?G @ q) \<in> ?T"
    with tr obtain f where f: "f \<in> set (candidates t)" "Copy s (?G @ q) \<in> emitted f" by auto
    from em[OF f(2)] have ng: "nongaming f" and "\<exists>q''. ?G @ q = imageset_dir f @ q''" by auto
    with G_of[OF f(1)] show False by blast
  qed
  have 4: "Write (?G @ q) b \<notin> ?T"
  proof
    assume "Write (?G @ q) b \<in> ?T"
    with tr obtain f where f: "f \<in> set (candidates t)" "Write (?G @ q) b \<in> emitted f" by auto
    from em[OF f(2)] have ng: "nongaming f" and "?G @ q = imageset_dir f @ [''Contents.json'']"
      by (auto simp: descriptor_path_def os_path_join_def)
    with G_of[OF f(1)] show False by blast
  qed
  have 5: "lookup (fs (snd (run t))) (?G @ q) = lookup t (?G @ q)"
  proof (rule upd_by_frame[OF up], intro allI notI)
    fix n
    assume "(?G @ q, n) \<in> {(q, Dir) | q. prefix q dest_root} \<union> (\<Union>f \<in> set (candidates t). touched f)"
    with not_root[of q] obtain f where "f \<in> set (candidates t)" "(?G @ q, n) \<in> touched f"
      by auto
    with gaming_not_touched show False by blast
  qed
  have 6: "for_files (candidates t) w = for_files (filter (\<lambda>f. f \<noteq> ''gaming.png'') (candidates t)) w"
    by (rule for_files_skip_gaming) (simp add: candidates_def)
  from 1 2 3 4 5 6 show ?thesis unfolding candidates_def by blast
qed

text \<open>
  C4. A run that completes prints one line, whose number is the length of the list of all
  entries of the source directory ending in \<^verbatim>\<open>.png\<close>, \<^verbatim>\<open>gaming.png\<close> included; the
  files copied in the run are as many as the candidates other than \<^verbatim>\<open>gaming.png\<close>.
\<close>

theorem summary_counts_all_candidates:
  assumes "run t = (Inr (), w')"
  shows "stdout w' = [''Processed ''
            @ str_int (int (length (filter (\<lambda>f. endswith f ''.png'') (entries t source_dir))))
            @ '' icons.'']
       \<and> length (filter is_copy (trace w'))
           = length (filter (\<lambda>f. f \<noteq> ''gaming.png'')
               (filter (\<lambda>f. endswith f ''.png'') (entries t source_dir)))"
  using assms
proof (cases rule: run_cases)
  case (completed w0 w1)
  from root_changes(5,6)[OF completed(1)] obtain mk where
    mk: "trace w0 = mk" "set mk \<subseteq> {Mkdir q | q. prefix q dest_root}" and o: "stdout w0 = []"
    by (auto simp: initial_def)
  from for_files_changes[OF completed(3)] have o1: "stdout w1 = stdout w0"
    by (simp add: changes_def)
  from for_files_trace[OF completed(3)] obtain evs where
    evs: "trace w1 = trace w0 @ evs"
      "filter (\<lambda>e. \<not> is_mkdir e) evs = concat (map (payload (fs w0)) (filter nongaming (candidates t)))"
    by blast
  have cm: "filter is_copy xs = filter is_copy (filter (\<lambda>e. \<not> is_mkdir e) xs)" for xs
    by (induction xs) (auto simp: is_copy_def is_mkdir_def split: event.splits)
  have "filter is_copy mk = []" using cm[of mk] filter_mkdirs[OF mk(2)] by simp
  moreover have "length (filter is_copy (concat (map (payload u) xs))) = length xs" for u xs
    by (induction xs) (simp_all add: payload_def is_copy_def)
  ultimately have "length (filter is_copy (trace w1)) = length (filter nongaming (candidates t))"
    using evs mk(1) cm[of evs] by simp
  moreover have "filter nongaming (candidates t) = filter (\<lambda>f. f \<noteq> ''gaming.png'') (candidates t)"
    by (rule filter_cong) (simp_all add: candidates_def nongaming_iff)
  ultimately show ?thesis using completed(5) o o1
    by (simp add: summary_def candidates_def)
qed simp_all

theorem summary_counts_all_candidates_witness:
  "run example_icons = (Inr (), snd (run example_icons))
   \<and> stdout (snd (run example_icons)) = [''Processed 3 icons.'']
   \<and> length (filter is_copy (trace (snd (run example_icons)))) = 2
   \<and> filter (\<lambda>f. endswith f ''.png'') (entries example_icons source_dir)
       = [''sports.png'', ''music.png'', ''gaming.png'']"
proof -
  have h: "run example_icons = (Inr (), snd (run example_icons))"
    by (simp add: run_example)
  have c: "filter (\<lambda>f. endswith f ''.png'') (entries example_icons source_dir)
       = [''sports.png'', ''music.png'', ''gaming.png'']"
    by code_simp
  from summary_counts_all_candidates[OF h] h c show ?thesis
    by (simp add: str_int_def str_nat.simps digit_char_def)
qed






text \<open>
  C7, as stated, fails: \<^verbatim>\<open>.png\<close> and \<^verbatim>\<open>.png.png\<close> are distinct candidates of one source
  directory with one container, \<^verbatim>\<open>.png.imageset\<close>, into which the run copies two files and
  writes two descriptors.
\<close>

theorem one_container_per_candidate_counterexample:
  "fst (run dotted_icons) = Inr ()
   \<and> distinct (map fst dotted_icons)
   \<and> ''.png'' \<in> set (entries dotted_icons source_dir)
   \<and> ''.png.png'' \<in> set (entries dotted_icons source_dir)
   \<and> endswith ''.png'' ''.png'' \<and> endswith ''.png.png'' ''.png''
   \<and> fst (splitext ''.png'') \<noteq> ''gaming'' \<and> fst (splitext ''.png.png'') \<noteq> ''gaming''
   \<and> ''.png'' \<noteq> ''.png.png''
   \<and> imageset_dir ''.png'' = imageset_dir ''.png.png''
   \<and> length (copies_into (imageset_dir ''.png'') (trace (snd (run dotted_icons)))) = 2
   \<and> length (writes_into (imageset_dir ''.png'') (trace (snd (run dotted_icons)))) = 2"
  using dotted_into dotted_distinct
  by (simp add: run_dotted dotted_entries endswith_def dot_png dot_png_png imageset_dir_def)

text \<open>
  C7, amended. After a run that completes, on a file system whose paths are distinct, a
  processed candidate \<open>f\<close> has its container \<^verbatim>\<open><base>.imageset\<close>; another candidate has the
  same container only when one of the two names has no extension for
  \<^verbatim>\<open>os.path.splitext\<close> (dots followed by \<^verbatim>\<open>png\<close>) and the other is that name followed by
  \<^verbatim>\<open>.png\<close>; and when no other candidate has the container of \<open>f\<close>, the run makes exactly
  one copy into it, that of \<open>f\<close>, and writes exactly one descriptor into it, that of \<open>f\<close>.
\<close>

theorem one_container_per_candidate:
  assumes "run t = (Inr (), w')" and "distinct (map fst t)"
    and "f \<in> set (entries t source_dir)" and "endswith f ''.png''"
    and "fst (splitext f) \<noteq> ''gaming''"
  shows "isdir (fs w') (imageset_dir f)
       \<and> (\<forall>g \<in> set (entries t source_dir).
             endswith g ''.png'' \<longrightarrow> g \<noteq> f \<longrightarrow> imageset_dir g = imageset_dir f \<longrightarrow>
             (f = g @ ''.png'' \<and> fst (splitext g) = g) \<or> (g = f @ ''.png'' \<and> fst (splitext f) = f))
       \<and> ((\<forall>g \<in> set (entries t source_dir).
              endswith g ''.png'' \<longrightarrow> g \<noteq> f \<longrightarrow> imageset_dir g \<noteq> imageset_dir f) \<longrightarrow>
            copies_into (imageset_dir f) (trace w')
              = [Copy (os_path_join source_dir f) (copy_target t f)]
            \<and> writes_into (imageset_dir f) (trace w')
              = [Write (os_path_join (imageset_dir f) ''Contents.json'')
                   (json_dumps 2 (get_1x_contents_json f))])"
proof -
  from assms(3,4) have c: "f \<in> set (candidates t)" by (simp add: candidates_def)
  from assms(5) have ng: "nongaming f" by (simp add: nongaming_def)
  have 1: "isdir (fs w') (imageset_dir f)" by (rule run_artifacts(1)[OF assms(1) c ng])
  have 2: "(f = g @ ''.png'' \<and> fst (splitext g) = g) \<or> (g = f @ ''.png'' \<and> fst (splitext f) = f)"
    if "endswith g ''.png''" "g \<noteq> f" "imageset_dir g = imageset_dir f" for g
  proof -
    from that(3) have "fst (splitext f) = fst (splitext g)" by (simp add: imageset_dir_eq)
    from base_collision[OF assms(4) that(1) _ this] that(2) show ?thesis by blast
  qed
  have 3: "copies_into (imageset_dir f) (trace w')
              = [Copy (os_path_join source_dir f) (copy_target t f)]
            \<and> writes_into (imageset_dir f) (trace w')
              = [Write (os_path_join (imageset_dir f) ''Contents.json'')
                   (json_dumps 2 (get_1x_contents_json f))]"
    if h: "\<forall>g \<in> set (entries t source_dir).
              endswith g ''.png'' \<longrightarrow> g \<noteq> f \<longrightarrow> imageset_dir g \<noteq> imageset_dir f"
  proof -
    let ?xs = "filter nongaming (candidates t)"
    have d: "distinct ?xs" using distinct_candidates[OF assms(2)] by simp
    have m: "f \<in> set ?xs" using c ng by simp
    have "\<forall>g \<in> set ?xs. imageset_dir g = imageset_dir f \<longleftrightarrow> g = f"
      using h by (auto simp: candidates_def)
    from filter_sole[OF d m this] have only: "filter (\<lambda>g. imageset_dir g = imageset_dir f) ?xs = [f]" .
    have len: "length (imageset_dir f) = 12" by simp
    from run_trace[OF assms(1)] into_nonmkdir[of "imageset_dir f" "trace w'"]
      payload_into[OF len, of t ?xs] only
    show ?thesis
      by (simp add: source_path_def descriptor_path_def descriptor_text_def)
  qed
  from 1 2 3 show ?thesis by blast
qed

theorem one_container_per_candidate_witness:
  "run example_icons = (Inr (), snd (run example_icons))
   \<and> distinct (map fst example_icons)
   \<and> ''sports.png'' \<in> set (entries example_icons source_dir)
   \<and> endswith ''sports.png'' ''.png''
   \<and> fst (splitext ''sports.png'') \<noteq> ''gaming''
   \<and> isdir (fs (snd (run example_icons))) (imageset_dir ''sports.png'')
   \<and> copies_into (imageset_dir ''sports.png'') (trace (snd (run example_icons)))
       = [Copy (os_path_join source_dir ''sports.png'') (imageset_dir ''sports.png'' @ [''sports.png''])]
   \<and> writes_into (imageset_dir ''sports.png'') (trace (snd (run example_icons)))
       = [Write (os_path_join (imageset_dir ''sports.png'') ''Contents.json'')
            (json_dumps 2 (get_1x_contents_json ''sports.png''))]"
proof -
  have h1: "run example_icons = (Inr (), snd (run example_icons))" by (simp add: run_example)
  have h3: "''sports.png'' \<in> set (entries example_icons source_dir)"
    by (simp add: example_entries)
  have h4: "endswith ''sports.png'' ''.png''" by (simp add: endswith_def)
  have h5: "fst (splitext ''sports.png'') \<noteq> ''gaming''" by (simp add: splitext_def)
  have h6: "\<forall>g \<in> set (entries example_icons source_dir).
      endswith g ''.png'' \<longrightarrow> g \<noteq> ''sports.png'' \<longrightarrow> imageset_dir g \<noteq> imageset_dir ''sports.png''"
    unfolding example_entries by (simp add: imageset_dir_eq splitext_def)
  have ct: "copy_target example_icons ''sports.png'' = imageset_dir ''sports.png'' @ [''sports.png'']"
    by code_simp
  from one_container_per_candidate[OF h1 example_distinct h3 h4 h5] h6 ct h1 h3 h4 h5 example_distinct
  show ?thesis by simp
qed



text \<open>
  C9. The name \<^verbatim>\<open>.png\<close> ends in \<^verbatim>\<open>.png\<close>, \<^verbatim>\<open>os.path.splitext\<close> leaves it whole, so its base
  name is \<^verbatim>\<open>.png\<close> and not \<^verbatim>\<open>gaming\<close>, and its container is \<^verbatim>\<open>.png.imageset\<close>: after a run
  that completes with an entry \<^verbatim>\<open>.png\<close> in the source directory that directory exists
  and holds a file \<^verbatim>\<open>.png\<close> with the bytes of the source file, at \<^verbatim>\<open>.png.imageset/.png\<close>
  or, when a directory stood there before the run, inside that directory.
\<close>

theorem dot_png_candidate:
  "endswith ''.png'' ''.png''
   \<and> splitext ''.png'' = (''.png'', [])
   \<and> fst (splitext ''.png'') \<noteq> ''gaming''
   \<and> imageset_dir ''.png'' = dest_root @ [''.png.imageset'']
   \<and> copy_target t ''.png''
       = (if isdir t (dest_root @ [''.png.imageset'', ''.png''])
          then dest_root @ [''.png.imageset'', ''.png'', ''.png'']
          else dest_root @ [''.png.imageset'', ''.png''])
   \<and> (run t = (Inr (), w') \<longrightarrow> ''.png'' \<in> set (entries t source_dir) \<longrightarrow>
        isdir (fs w') (dest_root @ [''.png.imageset''])
        \<and> (\<exists>b. lookup t (source_dir @ [''.png'']) = Some (File b)
               \<and> lookup (fs w') (copy_target t ''.png'') = Some (File b)))"
proof -
  have e: "endswith ''.png'' ''.png''" by (simp add: endswith_def)
  have I: "imageset_dir ''.png'' = dest_root @ [''.png.imageset'']"
    by (simp add: imageset_dir_def os_path_join_def dot_png)
  have ng: "nongaming ''.png''" by (simp add: nongaming_def dot_png)
  have ct: "copy_target t ''.png''
       = (if isdir t (dest_root @ [''.png.imageset'', ''.png''])
          then dest_root @ [''.png.imageset'', ''.png'', ''.png'']
          else dest_root @ [''.png.imageset'', ''.png''])"
    by (simp add: copy_target_def I os_path_join_def)
  have r: "isdir (fs w') (dest_root @ [''.png.imageset''])
        \<and> (\<exists>b. lookup t (source_dir @ [''.png'']) = Some (File b)
               \<and> lookup (fs w') (copy_target t ''.png'') = Some (File b))"
    if run: "run t = (Inr (), w')" and m: "''.png'' \<in> set (entries t source_dir)"
  proof -
    from m e have c: "''.png'' \<in> set (candidates t)" by (simp add: candidates_def)
    note art = run_artifacts[OF run c ng]
    from art(1,2) show ?thesis by (simp add: I source_path_def os_path_join_def)
  qed
  from e I ct r show ?thesis by (simp add: dot_png)
qed

theorem dot_png_candidate_witness:
  "run dotted_icons = (Inr (), snd (run dotted_icons))
   \<and> ''.png'' \<in> set (entries dotted_icons source_dir)
   \<and> \<not> isdir dotted_icons (dest_root @ [''.png.imageset'', ''.png''])
   \<and> isdir (fs (snd (run dotted_icons))) (dest_root @ [''.png.imageset''])
   \<and> lookup dotted_icons (source_dir @ [''.png'']) = Some (File ''A'')
   \<and> lookup (fs (snd (run dotted_icons))) (dest_root @ [''.png.imageset'', ''.png''])
       = Some (File ''A'')"
proof -
  have h1: "run dotted_icons = (Inr (), snd (run dotted_icons))" by (simp add: run_dotted)
  have h2: "''.png'' \<in> set (entries dotted_icons source_dir)" by (simp add: dotted_entries)
  have h3: "\<not> isdir dotted_icons (dest_root @ [''.png.imageset'', ''.png''])" by code_simp
  have s: "lookup dotted_icons (source_dir @ [''.png'']) = Some (File ''A'')" by code_simp
  from dot_png_candidate[of dotted_icons "snd (run dotted_icons)"] h1 h2 h3 s show ?thesis by auto
qed

text \<open>
  C10, as stated, fails for the excluded name: a subdirectory \<^verbatim>\<open>gaming.png\<close> of the source
  directory ends in \<^verbatim>\<open>.png\<close> and is counted, but the loop skips it before any copy, and
  the run completes.
\<close>

theorem png_directory_aborts_counterexample:
  "isdir gaming_folder (source_dir @ [''gaming.png''])
   \<and> endswith ''gaming.png'' ''.png''
   \<and> ''gaming.png'' \<in> set (filter (\<lambda>f. endswith f ''.png'') (entries gaming_folder source_dir))
   \<and> fst (run gaming_folder) = Inr ()
   \<and> trace (snd (run gaming_folder)) = [Mkdir (butlast dest_root), Mkdir dest_root]
   \<and> stdout (snd (run gaming_folder)) = [''Processed 1 icons.'']"
proof -
  have "entries gaming_folder source_dir = [''gaming.png'']" by code_simp
  then show ?thesis
    using gaming_folder_isdir by (simp add: run_gaming_folder endswith_def)
qed

text \<open>
  C10, amended. A subdirectory of the source directory whose name ends in \<^verbatim>\<open>.png\<close> and is
  not \<^verbatim>\<open>gaming.png\<close> is among the candidates that the summary would count, and the run
  ends with an error, nothing printed: wherever the loop body runs for it and its
  container can be made, the copy raises \<^verbatim>\<open>IsADirectoryError\<close> for the source path and
  the body ends there.
\<close>

theorem png_directory_aborts:
  assumes "isdir t (source_dir @ [f])" and "endswith f ''.png''" and "f \<noteq> ''gaming.png''"
  shows "f \<in> set (filter (\<lambda>f. endswith f ''.png'') (entries t source_dir))
       \<and> (\<exists>e. fst (run t) = Inl e)
       \<and> stdout (snd (run t)) = []
       \<and> (\<forall>w w1. isdir (fs w) (source_dir @ [f]) \<longrightarrow> isdir (fs w) source_dir \<longrightarrow>
             makedirs (imageset_dir f) w = (Inr (), w1) \<longrightarrow>
             import_icon f w = (Inl (IsADirectoryError (source_dir @ [f])), w1))"
proof -
  have S: "source_path f = source_dir @ [f]" by (simp add: source_path_def os_path_join_def)
  from assms(2,3) have ng: "nongaming f" by (simp add: nongaming_iff)
  from isdir_entry[OF assms(1)] assms(2) have c: "f \<in> set (candidates t)"
    by (simp add: candidates_def)
  obtain r w' where r: "run t = (r, w')" by (cases "run t")
  from r have "\<exists>e. r = Inl e"
  proof (cases rule: run_cases)
    case (completed w0 w1)
    from root_changes(7)[OF completed(1), of "source_path f"] assms(1)
    have "isdir (fs w0) (source_path f)" by (simp add: S initial_def)
    from for_files_dir[OF c ng this] completed(3) show ?thesis by simp
  qed auto
  then obtain e where e: "r = Inl e" ..
  with r run_failed_stdout[of t e w'] have 2: "(\<exists>e. fst (run t) = Inl e) \<and> stdout (snd (run t)) = []"
    by simp
  have 3: "import_icon f w = (Inl (IsADirectoryError (source_dir @ [f])), w1)"
    if "isdir (fs w) (source_dir @ [f])" "isdir (fs w) source_dir"
      "makedirs (imageset_dir f) w = (Inr (), w1)" for w w1
    using import_icon_dir(2)[OF _ ng that(2,3)] that(1) by (simp add: S)
  from c 2 3 show ?thesis by (simp add: candidates_def)
qed

theorem png_directory_aborts_witness:
  "isdir broken_icons (source_dir @ [''d.png''])
   \<and> endswith ''d.png'' ''.png'' \<and> ''d.png'' \<noteq> ''gaming.png''
   \<and> ''d.png'' \<in> set (filter (\<lambda>f. endswith f ''.png'') (entries broken_icons source_dir))
   \<and> fst (run broken_icons) = Inl (IsADirectoryError (source_dir @ [''d.png'']))
   \<and> stdout (snd (run broken_icons)) = []"
proof -
  have h2: "endswith ''d.png'' ''.png''" by (simp add: endswith_def)
  have h3: "''d.png'' \<noteq> ''gaming.png''" by simp
  have "fst (run broken_icons) = Inl (IsADirectoryError (source_dir @ [''d.png'']))"
    by (simp add: run_broken source_path_def os_path_join_def)
  with png_directory_aborts[OF broken_isdir(2) h2 h3] broken_isdir(2) h2 show ?thesis by simp
qed

end
